theory Spec2Isabelle
  imports Main "HOL-Library.Sublist"
begin

section \<open>The example-validation harness of scripts/validate-examples*.ts\<close>

text \<open>
  The two scripts (sequential and parallel) import their runners from
  \<^verbatim>\<open>./validation-common.js\<close>. The scheduler only sees what those imports return:
  \<^verbatim>\<open>getServerConfig(file)\<close> is a config object or \<^verbatim>\<open>null\<close>, and
  \<^verbatim>\<open>runExample\<close> / \<^verbatim>\<open>runServerExample\<close> return a promise that settles either
  by resolving with a \<^verbatim>\<open>TestResult\<close> or by rejecting. The imports are therefore
  parameters of the model (record \<open>common\<close>), and the type of a server config is a
  type parameter.
\<close>

subsection \<open>Data\<close>

text \<open>The fields of \<^verbatim>\<open>TestResult\<close> that the two scripts read.\<close>

record TestResult =
  success :: bool
  duration :: nat
  error :: "string option"

text \<open>A thrown value: the reason of a rejected promise.\<close>

datatype thrown = Thrown string

text \<open>The imported functions, as the scripts use them.\<close>

record 'c common =
  getServerConfig :: "string \<Rightarrow> 'c option"
  runServerExample :: "string \<Rightarrow> 'c \<Rightarrow> thrown + TestResult"
  runExample :: "string \<Rightarrow> thrown + TestResult"

text \<open>
  A runner invocation, as written at the call site:
  \<^verbatim>\<open>serverConfig ? await runServerExample(file, serverConfig) : await runExample(file)\<close>.
\<close>

datatype 'c call = RunServerExample string 'c | RunExample string

definition invoke :: "'c common \<Rightarrow> string \<Rightarrow> 'c call" where
  "invoke env file =
     (case getServerConfig env file of
        Some serverConfig \<Rightarrow> RunServerExample file serverConfig
      | None \<Rightarrow> RunExample file)"

text \<open>What the promise of an invocation settles with.\<close>

fun settle :: "'c common \<Rightarrow> 'c call \<Rightarrow> thrown + TestResult" where
  "settle env (RunServerExample file serverConfig) = runServerExample env file serverConfig"
| "settle env (RunExample file) = runExample env file"

text \<open>The file an invocation is for.\<close>

fun file_of :: "'c call \<Rightarrow> string" where
  "file_of (RunServerExample file serverConfig) = file"
| "file_of (RunExample file) = file"

text \<open>
  Observable events of a run, in the order in which the single JavaScript thread
  performs them. Indices are 0-based positions in the discovered file list; the
  text of the console lines is left out.
  \<^item> \<open>Claimed w i\<close>: worker \<open>w\<close> executed \<^verbatim>\<open>const currentIndex = nextIndex++\<close> and read \<open>i\<close>;
  \<^item> \<open>Announced i\<close>: the progress line printed before the run of example \<open>i\<close>;
  \<^item> \<open>Invoked i c\<close>: the runner call \<open>c\<close> was made for example \<open>i\<close>;
  \<^item> \<open>Settled i\<close>: the awaited promise of example \<open>i\<close> settled;
  \<^item> \<open>Stored w i\<close>: worker \<open>w\<close> executed \<^verbatim>\<open>results[i] = result\<close>;
  \<^item> \<open>Pushed i\<close>: the sequential loop executed \<^verbatim>\<open>results.push(result)\<close> for example \<open>i\<close>;
  \<^item> \<open>Reported i ok\<close>: the pass/fail line printed for example \<open>i\<close>.
\<close>

datatype 'c event =
    Claimed nat nat
  | Announced nat
  | Invoked nat "'c call"
  | Settled nat
  | Stored nat nat
  | Pushed nat
  | Reported nat bool

subsection \<open>Parallel mode: \<^verbatim>\<open>runTestsWithConcurrency\<close>\<close>

text \<open>
  A worker is an async function. Between two suspension points it runs without
  interruption; it is suspended only at the \<^verbatim>\<open>await\<close> of a runner promise.
  \<^item> \<open>Awaiting i c\<close>: suspended at the \<^verbatim>\<open>await\<close> of invocation \<open>c\<close> for index \<open>i\<close>;
  \<^item> \<open>Returned\<close>: left the loop through \<^verbatim>\<open>break\<close>, its promise is resolved;
  \<^item> \<open>Threw e\<close>: the awaited promise rejected; nothing in the worker catches it,
    so the worker's own promise is rejected with \<open>e\<close>.
\<close>

datatype 'c wstate = Awaiting nat "'c call" | Returned | Threw thrown

record 'c pstate =
  results :: "TestResult option list"
  nextIndex :: nat
  workers :: "'c wstate list"
  events :: "'c event list"

text \<open>
  \<^verbatim>\<open>const results = new Array(files.length); let nextIndex = 0;\<close>
  An empty slot of the array is \<open>None\<close>.
\<close>

definition init :: "string list \<Rightarrow> 'c pstate" where
  "init files =
     \<lparr>results = replicate (length files) None, nextIndex = 0, workers = [], events = []\<rparr>"

text \<open>
  The body of the worker's loop from its top to the \<^verbatim>\<open>await\<close>: claim an index,
  leave the loop when it is out of range, otherwise announce and invoke the runner.
  Returns the new shared state and the state in which the worker is left.
\<close>

definition claim :: "'c common \<Rightarrow> string list \<Rightarrow> nat \<Rightarrow> 'c pstate \<Rightarrow> 'c pstate \<times> 'c wstate" where
  "claim env files w st =
     (let currentIndex = nextIndex st;
          st1 = st\<lparr>nextIndex := nextIndex st + 1,
                   events := events st @ [Claimed w currentIndex]\<rparr>
      in if currentIndex \<ge> length files then (st1, Returned)
         else
           let file = files ! currentIndex;
               c = invoke env file
           in (st1\<lparr>events := events st1 @ [Announced currentIndex, Invoked currentIndex c]\<rparr>,
               Awaiting currentIndex c))"

text \<open>\<^verbatim>\<open>workers.push(worker())\<close>: the call runs the worker up to its first \<^verbatim>\<open>await\<close>.\<close>

definition spawn :: "'c common \<Rightarrow> string list \<Rightarrow> 'c pstate \<Rightarrow> 'c pstate" where
  "spawn env files st =
     (case claim env files (length (workers st)) st of
        (st1, ws) \<Rightarrow> st1\<lparr>workers := workers st1 @ [ws]\<rparr>)"

text \<open>
  \<^verbatim>\<open>for (let i = 0; i < Math.min(concurrency, files.length); i++)\<close>, with the number of
  iterations as argument. The limit is an integer here (the only call passes the
  constant 10); for a limit below 1 the loop body never runs.
\<close>

fun spawn_loop :: "'c common \<Rightarrow> string list \<Rightarrow> nat \<Rightarrow> 'c pstate \<Rightarrow> 'c pstate" where
  "spawn_loop env files 0 st = st"
| "spawn_loop env files (Suc n) st = spawn_loop env files n (spawn env files st)"

definition pool_size :: "int \<Rightarrow> string list \<Rightarrow> nat" where
  "pool_size concurrency files = nat (min concurrency (int (length files)))"

definition launched :: "'c common \<Rightarrow> string list \<Rightarrow> nat \<Rightarrow> 'c pstate" where
  "launched env files n = spawn_loop env files n (init files)"

text \<open>
  Worker \<open>w\<close> is resumed because the promise it awaits has settled. On a rejection
  the \<^verbatim>\<open>await\<close> throws and the worker ends. Otherwise the result is stored in the
  claimed slot, reported, and the loop goes round. (The index written is below
  \<^verbatim>\<open>files.length\<close>, the length of the array, by the check made at the claim.)
\<close>

definition resume :: "'c common \<Rightarrow> string list \<Rightarrow> nat \<Rightarrow> 'c pstate \<Rightarrow> 'c pstate" where
  "resume env files w st =
     (case workers st ! w of
        Awaiting currentIndex c \<Rightarrow>
          (case settle env c of
             Inl e \<Rightarrow>
               st\<lparr>workers := (workers st)[w := Threw e],
                  events := events st @ [Settled currentIndex]\<rparr>
           | Inr result \<Rightarrow>
               (case claim env files w
                  (st\<lparr>results := (results st)[currentIndex := Some result],
                      events := events st @
                        [Settled currentIndex, Stored w currentIndex,
                         Reported currentIndex (success result)]\<rparr>) of
                  (st1, ws) \<Rightarrow> st1\<lparr>workers := (workers st1)[w := ws]\<rparr>))
      | _ \<Rightarrow> st)"

fun awaiting :: "'c wstate \<Rightarrow> bool" where
  "awaiting (Awaiting i c) = True"
| "awaiting _ = False"

fun rejection :: "'c wstate \<Rightarrow> thrown option" where
  "rejection (Threw e) = Some e"
| "rejection _ = None"

text \<open>The workers that can be resumed, and the first rejection among the workers.\<close>

definition suspended :: "'c pstate \<Rightarrow> nat list" where
  "suspended st = filter (\<lambda>w. awaiting (workers st ! w)) [0..<length (workers st)]"

definition rejected :: "'c pstate \<Rightarrow> thrown option" where
  "rejected st = (case List.map_filter rejection (workers st) of [] \<Rightarrow> None | e # _ \<Rightarrow> Some e)"

text \<open>
  \<^verbatim>\<open>await Promise.all(workers)\<close> is over when one worker has rejected or all have
  returned.
\<close>

definition settled :: "'c pstate \<Rightarrow> bool" where
  "settled st = (rejected st \<noteq> None \<or> suspended st = [])"

text \<open>
  The states a run goes through. Completion order is not fixed by the program:
  any suspended worker may be the next one whose promise settles.
\<close>

inductive reachable :: "'c common \<Rightarrow> string list \<Rightarrow> int \<Rightarrow> 'c pstate \<Rightarrow> bool"
  for env :: "'c common" and files :: "string list" and concurrency :: int where
  launching: "n \<le> pool_size concurrency files \<Longrightarrow> reachable env files concurrency (launched env files n)"
| resuming: "reachable env files concurrency st \<Longrightarrow>
     length (workers st) = pool_size concurrency files \<Longrightarrow>
     \<not> settled st \<Longrightarrow> w \<in> set (suspended st) \<Longrightarrow>
     reachable env files concurrency (resume env files w st)"

text \<open>
  A run under a given completion order. The order is a list of choices: choice \<open>c\<close>
  resumes the \<open>c mod n\<close>-th of the \<open>n\<close> suspended workers; when the list is used up
  the first suspended worker is resumed. Every completion order is of this form
  (lemma \<open>settled_state_is_run\<close> below).
\<close>

definition measure_left :: "string list \<Rightarrow> 'c pstate \<Rightarrow> nat" where
  "measure_left files st = (length files - nextIndex st) + length (suspended st)"

definition pick :: "nat list \<Rightarrow> 'c pstate \<Rightarrow> nat" where
  "pick order st =
     (case order of [] \<Rightarrow> hd (suspended st)
      | c # _ \<Rightarrow> suspended st ! (c mod length (suspended st)))"

subsection \<open>Termination of the pool\<close>

lemma suspended_card:
  "length (suspended st) = card {w. w < length (workers st) \<and> awaiting (workers st ! w)}"
proof -
  have "distinct (suspended st)" by (simp add: suspended_def)
  then have "length (suspended st) = card (set (suspended st))" by (simp add: distinct_card)
  also have "set (suspended st) = {w. w < length (workers st) \<and> awaiting (workers st ! w)}"
    by (auto simp: suspended_def)
  finally show ?thesis .
qed

lemma pick_suspended: "suspended st \<noteq> [] \<Longrightarrow> pick order st \<in> set (suspended st)"
  by (cases order) (auto simp: pick_def)

lemma suspended_iff: "w \<in> set (suspended st) \<longleftrightarrow> w < length (workers st) \<and> awaiting (workers st ! w)"
  by (auto simp: suspended_def)

lemma card_drop:
  assumes "w < length xs" "awaiting (xs ! w)" "\<not> awaiting v"
  shows "card {u. u < length (xs[w := v]) \<and> awaiting (xs[w := v] ! u)} < card {u. u < length xs \<and> awaiting (xs ! u)}"
proof -
  have "{u. u < length (xs[w := v]) \<and> awaiting (xs[w := v] ! u)} = {u. u < length xs \<and> awaiting (xs ! u)} - {w}"
    using assms by (auto simp: nth_list_update)
  moreover have "w \<in> {u. u < length xs \<and> awaiting (xs ! u)}" using assms by simp
  moreover have "finite {u. u < length xs \<and> awaiting (xs ! u)}" by simp
  ultimately show ?thesis by (metis card_Diff1_less)
qed

lemma card_keep:
  assumes "w < length xs" "awaiting (xs ! w)" "awaiting v"
  shows "card {u. u < length (xs[w := v]) \<and> awaiting (xs[w := v] ! u)} = card {u. u < length xs \<and> awaiting (xs ! u)}"
proof -
  have "{u. u < length (xs[w := v]) \<and> awaiting (xs[w := v] ! u)} = {u. u < length xs \<and> awaiting (xs ! u)}"
    using assms by (auto simp: nth_list_update)
  then show ?thesis by simp
qed

lemma resume_reject:
  "workers st ! w = Awaiting i c \<Longrightarrow> settle env c = Inl e \<Longrightarrow>
   resume env files w st =
     st\<lparr>workers := (workers st)[w := Threw e], events := events st @ [Settled i]\<rparr>"
  by (simp add: resume_def)

lemma resume_last:
  "workers st ! w = Awaiting i c \<Longrightarrow> settle env c = Inr r \<Longrightarrow> length files \<le> nextIndex st \<Longrightarrow>
   resume env files w st =
     st\<lparr>results := (results st)[i := Some r], nextIndex := Suc (nextIndex st),
        workers := (workers st)[w := Returned],
        events := events st @
          [Settled i, Stored w i, Reported i (success r), Claimed w (nextIndex st)]\<rparr>"
  by (simp add: resume_def claim_def Let_def)

lemma resume_next:
  "workers st ! w = Awaiting i c \<Longrightarrow> settle env c = Inr r \<Longrightarrow> nextIndex st < length files \<Longrightarrow>
   resume env files w st =
     st\<lparr>results := (results st)[i := Some r], nextIndex := Suc (nextIndex st),
        workers := (workers st)[w := Awaiting (nextIndex st) (invoke env (files ! nextIndex st))],
        events := events st @
          [Settled i, Stored w i, Reported i (success r), Claimed w (nextIndex st),
           Announced (nextIndex st), Invoked (nextIndex st) (invoke env (files ! nextIndex st))]\<rparr>"
  by (simp add: resume_def claim_def Let_def)

lemma spawn_next:
  "nextIndex st < length files \<Longrightarrow>
   spawn env files st =
     st\<lparr>nextIndex := Suc (nextIndex st),
        workers := workers st @ [Awaiting (nextIndex st) (invoke env (files ! nextIndex st))],
        events := events st @
          [Claimed (length (workers st)) (nextIndex st),
           Announced (nextIndex st), Invoked (nextIndex st) (invoke env (files ! nextIndex st))]\<rparr>"
  by (simp add: spawn_def claim_def Let_def)

lemma spawn_last:
  "length files \<le> nextIndex st \<Longrightarrow>
   spawn env files st =
     st\<lparr>nextIndex := Suc (nextIndex st), workers := workers st @ [Returned],
        events := events st @ [Claimed (length (workers st)) (nextIndex st)]\<rparr>"
  by (simp add: spawn_def claim_def Let_def)

lemma resume_decreases:
  assumes "w \<in> set (suspended st)"
  shows "measure_left files (resume env files w st) < measure_left files st"
proof -
  from assms have w: "w < length (workers st)" and a: "awaiting (workers st ! w)"
    by (simp_all add: suspended_iff)
  from a obtain i c where wi: "workers st ! w = Awaiting i c" by (cases "workers st ! w") auto
  show ?thesis
  proof (cases "settle env c")
    case (Inl e)
    then show ?thesis using wi w a card_drop[of w "workers st" "Threw e"]
      by (simp add: resume_reject measure_left_def suspended_card)
  next
    case (Inr r)
    show ?thesis
    proof (cases "nextIndex st \<ge> length files")
      case True
      then show ?thesis using wi w a Inr card_drop[of w "workers st" "Returned"]
        by (simp add: resume_last measure_left_def suspended_card)
    next
      case False
      then show ?thesis using wi w a Inr
          card_keep[of w "workers st" "Awaiting (nextIndex st) (invoke env (files ! nextIndex st))"]
        by (simp add: resume_next measure_left_def suspended_card)
    qed
  qed
qed

text \<open>\<^verbatim>\<open>await Promise.all(workers)\<close> under a completion order.\<close>

function drain :: "'c common \<Rightarrow> string list \<Rightarrow> nat list \<Rightarrow> 'c pstate \<Rightarrow> 'c pstate" where
  "drain env files order st =
     (if settled st then st
      else drain env files (tl order) (resume env files (pick order st) st))"
  by pat_completeness auto
termination
proof (relation "measure (\<lambda>(env, files, order, st). measure_left files st)")
  show "wf (measure (\<lambda>(env, files, order, st). measure_left files st))" by simp
next
  fix env :: "'c common" and files order and st :: "'c pstate"
  assume "\<not> settled st"
  then have "suspended st \<noteq> []" by (simp add: settled_def)
  then have "pick order st \<in> set (suspended st)" by (rule pick_suspended)
  then show "((env, files, tl order, resume env files (pick order st) st), env, files, order, st)
      \<in> measure (\<lambda>(env, files, order, st). measure_left files st)"
    by (simp add: resume_decreases)
qed


declare drain.simps [simp del]

lemma drain_settled [simp]: "settled st \<Longrightarrow> drain env files order st = st"
  by (subst drain.simps) simp

lemma drain_step [simp]:
  "\<not> settled st \<Longrightarrow>
   drain env files order st = drain env files (tl order) (resume env files (pick order st) st)"
  by (subst drain.simps) simp

text \<open>
  \<^verbatim>\<open>runTestsWithConcurrency(files, concurrency, projectRoot)\<close>: the state in which
  \<^verbatim>\<open>Promise.all\<close> settles, and what the function's promise settles with: the
  array, or the rejection that nothing between the worker and \<^verbatim>\<open>main().catch\<close>
  handles. (\<^verbatim>\<open>projectRoot\<close> only shortens the printed paths.)
\<close>

definition run_parallel :: "'c common \<Rightarrow> string list \<Rightarrow> int \<Rightarrow> nat list \<Rightarrow> 'c pstate" where
  "run_parallel env files concurrency order =
     drain env files order (launched env files (pool_size concurrency files))"

definition runTestsWithConcurrency ::
  "'c common \<Rightarrow> string list \<Rightarrow> int \<Rightarrow> nat list \<Rightarrow> thrown + TestResult option list" where
  "runTestsWithConcurrency env files concurrency order =
     (let st = run_parallel env files concurrency order
      in case rejected st of Some e \<Rightarrow> Inl e | None \<Rightarrow> Inr (results st))"

subsection \<open>Sequential mode: the loop of \<^verbatim>\<open>main\<close>\<close>

text \<open>
  \<^verbatim>\<open>const results = []; let passed = 0; let failed = 0;\<close> and the log of what the
  loop does.
\<close>

record 'c sstate =
  seq_results :: "TestResult list"
  passed :: nat
  failed :: nat
  seq_events :: "'c event list"

definition seq_init :: "'c sstate" where
  "seq_init = \<lparr>seq_results = [], passed = 0, failed = 0, seq_events = []\<rparr>"

text \<open>
  \<^verbatim>\<open>for (let i = 0; i < allFiles.length; i++)\<close>. The \<^verbatim>\<open>await\<close> sits directly in the
  loop: a rejection leaves the loop and \<^verbatim>\<open>main\<close> (left summand, with the state
  reached), a result is pushed and counted.
\<close>

function seq_loop ::
  "'c common \<Rightarrow> string list \<Rightarrow> nat \<Rightarrow> 'c sstate \<Rightarrow> thrown \<times> 'c sstate + 'c sstate" where
  "seq_loop env allFiles i st =
     (if i < length allFiles then
        (let file = allFiles ! i;
             c = invoke env file;
             st1 = st\<lparr>seq_events := seq_events st @ [Announced i, Invoked i c]\<rparr>
         in case settle env c of
              Inl e \<Rightarrow> Inl (e, st1\<lparr>seq_events := seq_events st1 @ [Settled i]\<rparr>)
            | Inr result \<Rightarrow>
                seq_loop env allFiles (i + 1)
                  (if success result
                   then st1\<lparr>seq_results := seq_results st1 @ [result],
                            passed := passed st1 + 1,
                            seq_events := seq_events st1 @ [Settled i, Pushed i, Reported i True]\<rparr>
                   else st1\<lparr>seq_results := seq_results st1 @ [result],
                            failed := failed st1 + 1,
                            seq_events := seq_events st1 @ [Settled i, Pushed i, Reported i False]\<rparr>))
      else Inr st)"
  by pat_completeness auto
termination
  by (relation "measure (\<lambda>(env, allFiles, i, st). length allFiles - i)") auto

declare seq_loop.simps [simp del]

text \<open>What one round of the sequential loop appends to the log.\<close>

definition seq_round :: "'c common \<Rightarrow> string list \<Rightarrow> (string \<Rightarrow> TestResult) \<Rightarrow> nat \<Rightarrow> 'c event list" where
  "seq_round env files run i =
     [Announced i, Invoked i (invoke env (files ! i)), Settled i, Pushed i,
      Reported i (success (run (files ! i)))]"

subsection \<open>The two \<^verbatim>\<open>main\<close> functions and the exit status\<close>

text \<open>
  Discovery (\<^verbatim>\<open>findChapters\<close>, \<^verbatim>\<open>collectAllCodeFiles\<close>) is imported: its outcome, the
  file list or a thrown error, is an argument. The \<^verbatim>\<open>display\<close> functions only print.
  The value is the status passed to \<^verbatim>\<open>process.exit\<close>; \<^verbatim>\<open>main().catch\<close> exits with 1.
\<close>

definition main_sequential :: "'c common \<Rightarrow> thrown + string list \<Rightarrow> nat" where
  "main_sequential env discovered =
     (case discovered of
        Inl e \<Rightarrow> 1
      | Inr allFiles \<Rightarrow>
          (case seq_loop env allFiles 0 seq_init of
             Inl thrown_at \<Rightarrow> 1
           | Inr st \<Rightarrow> if failed st > 0 then 1 else 0))"

definition CONCURRENCY :: int where
  "CONCURRENCY = 10"

text \<open>\<^verbatim>\<open>Array.prototype.filter\<close> does not visit the empty slots of an array.\<close>

definition filter_array :: "('a \<Rightarrow> bool) \<Rightarrow> 'a option list \<Rightarrow> 'a list" where
  "filter_array p arr = filter p (List.map_filter (\<lambda>slot. slot) arr)"

definition main_parallel :: "'c common \<Rightarrow> thrown + string list \<Rightarrow> nat list \<Rightarrow> nat" where
  "main_parallel env discovered order =
     (case discovered of
        Inl e \<Rightarrow> 1
      | Inr allFiles \<Rightarrow>
          (case runTestsWithConcurrency env allFiles CONCURRENCY order of
             Inl e \<Rightarrow> 1
           | Inr slots \<Rightarrow>
               (let n_failed = length (filter_array (\<lambda>r. \<not> success r) slots)
                in if n_failed > 0 then 1 else 0)))"

text \<open>
  The array that \<^verbatim>\<open>displayFinalResults\<close> is called with, when \<^verbatim>\<open>main\<close> reaches the
  call: it stands after the loop, respectively after the \<^verbatim>\<open>await\<close> of
  \<^verbatim>\<open>runTestsWithConcurrency\<close>, so a throw before it leaves \<^verbatim>\<open>main\<close> without a final
  report (\<open>None\<close>).
\<close>

definition final_report_sequential :: "'c common \<Rightarrow> thrown + string list \<Rightarrow> TestResult list option" where
  "final_report_sequential env discovered =
     (case discovered of
        Inl e \<Rightarrow> None
      | Inr allFiles \<Rightarrow>
          (case seq_loop env allFiles 0 seq_init of
             Inl thrown_at \<Rightarrow> None
           | Inr st \<Rightarrow> Some (seq_results st)))"

definition final_report_parallel ::
  "'c common \<Rightarrow> thrown + string list \<Rightarrow> nat list \<Rightarrow> TestResult option list option" where
  "final_report_parallel env discovered order =
     (case discovered of
        Inl e \<Rightarrow> None
      | Inr allFiles \<Rightarrow>
          (case runTestsWithConcurrency env allFiles CONCURRENCY order of
             Inl e \<Rightarrow> None
           | Inr slots \<Rightarrow> Some slots))"

subsection \<open>Reading the event log\<close>

fun claim_of :: "'c event \<Rightarrow> (nat \<times> nat) option" where
  "claim_of (Claimed w i) = Some (w, i)"
| "claim_of _ = None"

fun store_of :: "'c event \<Rightarrow> (nat \<times> nat) option" where
  "store_of (Stored w i) = Some (w, i)"
| "store_of _ = None"

fun invocation_of :: "'c event \<Rightarrow> (nat \<times> 'c call) option" where
  "invocation_of (Invoked i c) = Some (i, c)"
| "invocation_of _ = None"

fun settlement_of :: "'c event \<Rightarrow> nat option" where
  "settlement_of (Settled i) = Some i"
| "settlement_of _ = None"

fun report_of :: "'c event \<Rightarrow> (nat \<times> bool) option" where
  "report_of (Reported i ok) = Some (i, ok)"
| "report_of _ = None"

text \<open>The claims \<open>(worker, index)\<close>, stores \<open>(worker, index)\<close>, invocations, settled
  indices and report lines of a log, each in the order of the log.\<close>

definition claims :: "'c event list \<Rightarrow> (nat \<times> nat) list" where
  "claims evs = List.map_filter claim_of evs"

definition stores :: "'c event list \<Rightarrow> (nat \<times> nat) list" where
  "stores evs = List.map_filter store_of evs"

definition invocations :: "'c event list \<Rightarrow> (nat \<times> 'c call) list" where
  "invocations evs = List.map_filter invocation_of evs"

definition settlements :: "'c event list \<Rightarrow> nat list" where
  "settlements evs = List.map_filter settlement_of evs"

definition reports :: "'c event list \<Rightarrow> (nat \<times> bool) list" where
  "reports evs = List.map_filter report_of evs"

text \<open>
  The number of runs in flight after a log: every invocation of a runner adds one,
  every settled promise takes one away. \<open>within K cur evs\<close> says that the count,
  starting from \<open>cur\<close>, never rises above \<open>K\<close> while \<open>evs\<close> happen.
\<close>

fun delta :: "'c event \<Rightarrow> int" where
  "delta (Invoked i c) = 1"
| "delta (Settled i) = - 1"
| "delta _ = 0"

definition in_flight :: "'c event list \<Rightarrow> int" where
  "in_flight evs = sum_list (map delta evs)"

fun within :: "int \<Rightarrow> int \<Rightarrow> 'c event list \<Rightarrow> bool" where
  "within K cur [] = (cur \<le> K)"
| "within K cur (e # es) = (cur \<le> K \<and> within K (cur + delta e) es)"

lemma map_filter_append: "List.map_filter f (xs @ ys) = List.map_filter f xs @ List.map_filter f ys"
  by (simp add: List.map_filter_def)

lemma claims_simps [simp]:
  "claims [] = []"
  "claims (xs @ ys) = claims xs @ claims ys"
  "claims (Claimed w i # xs) = (w, i) # claims xs"
  "claims (Announced i # xs) = claims xs"
  "claims (Invoked i c # xs) = claims xs"
  "claims (Settled i # xs) = claims xs"
  "claims (Stored w i # xs) = claims xs"
  "claims (Pushed i # xs) = claims xs"
  "claims (Reported i ok # xs) = claims xs"
  by (simp_all add: claims_def map_filter_append List.map_filter_simps)

lemma stores_simps [simp]:
  "stores [] = []"
  "stores (xs @ ys) = stores xs @ stores ys"
  "stores (Claimed w i # xs) = stores xs"
  "stores (Announced i # xs) = stores xs"
  "stores (Invoked i c # xs) = stores xs"
  "stores (Settled i # xs) = stores xs"
  "stores (Stored w i # xs) = (w, i) # stores xs"
  "stores (Pushed i # xs) = stores xs"
  "stores (Reported i ok # xs) = stores xs"
  by (simp_all add: stores_def map_filter_append List.map_filter_simps)

lemma invocations_simps [simp]:
  "invocations [] = []"
  "invocations (xs @ ys) = invocations xs @ invocations ys"
  "invocations (Claimed w i # xs) = invocations xs"
  "invocations (Announced i # xs) = invocations xs"
  "invocations (Invoked i c # xs) = (i, c) # invocations xs"
  "invocations (Settled i # xs) = invocations xs"
  "invocations (Stored w i # xs) = invocations xs"
  "invocations (Pushed i # xs) = invocations xs"
  "invocations (Reported i ok # xs) = invocations xs"
  by (simp_all add: invocations_def map_filter_append List.map_filter_simps)

lemma settlements_simps [simp]:
  "settlements [] = []"
  "settlements (xs @ ys) = settlements xs @ settlements ys"
  "settlements (Claimed w i # xs) = settlements xs"
  "settlements (Announced i # xs) = settlements xs"
  "settlements (Invoked i c # xs) = settlements xs"
  "settlements (Settled i # xs) = i # settlements xs"
  "settlements (Stored w i # xs) = settlements xs"
  "settlements (Pushed i # xs) = settlements xs"
  "settlements (Reported i ok # xs) = settlements xs"
  by (simp_all add: settlements_def map_filter_append List.map_filter_simps)

lemma reports_simps [simp]:
  "reports [] = []"
  "reports (xs @ ys) = reports xs @ reports ys"
  "reports (Claimed w i # xs) = reports xs"
  "reports (Announced i # xs) = reports xs"
  "reports (Invoked i c # xs) = reports xs"
  "reports (Settled i # xs) = reports xs"
  "reports (Stored w i # xs) = reports xs"
  "reports (Pushed i # xs) = reports xs"
  "reports (Reported i ok # xs) = (i, ok) # reports xs"
  by (simp_all add: reports_def map_filter_append List.map_filter_simps)

subsection \<open>Counting lemmas\<close>

lemma in_flight_simps [simp]:
  "in_flight [] = 0"
  "in_flight (xs @ ys) = in_flight xs + in_flight ys"
  "in_flight (e # xs) = delta e + in_flight xs"
  by (simp_all add: in_flight_def)

lemma within_le: "within K cur evs \<Longrightarrow> cur \<le> K"
  by (cases evs) auto

lemma within_append: "within K cur (xs @ ys) = (within K cur xs \<and> within K (cur + in_flight xs) ys)"
  by (induction xs arbitrary: cur) (auto simp: algebra_simps dest: within_le)

lemma within_mono: "within K cur evs \<Longrightarrow> K \<le> K' \<Longrightarrow> within K' cur evs"
  by (induction evs arbitrary: cur) auto

lemma within_take_gen: "within K cur evs \<longleftrightarrow> (\<forall>n. cur + in_flight (take n evs) \<le> K)"
proof (induction evs arbitrary: cur)
  case Nil
  then show ?case by simp
next
  case (Cons e es)
  show ?case
  proof
    assume a: "within K cur (e # es)"
    show "\<forall>n. cur + in_flight (take n (e # es)) \<le> K"
    proof
      fix n show "cur + in_flight (take n (e # es)) \<le> K"
        using a Cons.IH[of "cur + delta e"] by (cases n) (auto simp: algebra_simps)
    qed
  next
    assume a: "\<forall>n. cur + in_flight (take n (e # es)) \<le> K"
    from a[rule_format, of 0] have 1: "cur \<le> K" by simp
    have "\<forall>n. cur + delta e + in_flight (take n es) \<le> K"
    proof
      fix n from a[rule_format, of "Suc n"] show "cur + delta e + in_flight (take n es) \<le> K"
        by (simp add: algebra_simps)
    qed
    then show "within K cur (e # es)" using 1 Cons.IH[of "cur + delta e"] by simp
  qed
qed

lemma suspended_filter: "length (suspended st) = length (filter awaiting (workers st))"
proof -
  have "length (filter (\<lambda>w. P (xs ! w)) [0..<length xs]) = length (filter P xs)" for P and xs :: "'a wstate list"
  proof (induction xs rule: rev_induct)
    case Nil
    then show ?case by simp
  next
    case (snoc x xs)
    have "filter (\<lambda>w. P ((xs @ [x]) ! w)) [0..<length xs] = filter (\<lambda>w. P (xs ! w)) [0..<length xs]"
      by (rule filter_cong) (auto simp: nth_append)
    then show ?case using snoc by simp
  qed
  then show ?thesis by (simp add: suspended_def)
qed

lemma filter_update_count:
  "w < length xs \<Longrightarrow>
   length (filter P (xs[w := v])) + (if P (xs ! w) then 1 else 0) =
   length (filter P xs) + (if P v then 1 else 0)"
proof (induction xs arbitrary: w)
  case Nil
  then show ?case by simp
next
  case (Cons x xs)
  then show ?case by (cases w) auto
qed

lemma suspended_update:
  "w < length (workers st) \<Longrightarrow> awaiting (workers st ! w) \<Longrightarrow>
   int (length (suspended (st\<lparr>workers := (workers st)[w := v]\<rparr>))) =
   int (length (suspended st)) - 1 + (if awaiting v then 1 else 0)"
  using filter_update_count[of w "workers st" awaiting v]
  by (cases "awaiting v") (simp_all add: suspended_filter)

lemma rejected_None_iff: "rejected st = None \<longleftrightarrow> (\<forall>x\<in>set (workers st). \<forall>e. x \<noteq> Threw e)"
proof -
  have "List.map_filter rejection ws = [] \<longleftrightarrow> (\<forall>x\<in>set ws. \<forall>e. x \<noteq> Threw e)" for ws :: "'a wstate list"
  proof (induction ws)
    case Nil
    then show ?case by simp
  next
    case (Cons x ws)
    then show ?case by (cases x) auto
  qed
  from this[of "workers st"] show ?thesis
    by (cases "List.map_filter rejection (workers st)") (simp_all add: rejected_def)
qed

subsection \<open>Invariants of the worker pool\<close>

text \<open>
  \<open>log_inv\<close>: the claimed indices are \<open>0, 1, \<dots>\<close> in this order up to the cursor, the
  invocations are those of the claimed files in this order, and the runs in flight
  are those of the suspended workers. \<open>slot_inv\<close>: a slot is written once, by the
  worker that claimed it, with the result of its file. \<open>worker_inv\<close>: what a
  suspended worker waits for. \<open>cover_inv\<close>: every claimed file is settled or awaited.
  \<open>reject_inv\<close>: a worker only ends by a rejection of a runner.
\<close>

definition log_inv :: "'c common \<Rightarrow> string list \<Rightarrow> 'c pstate \<Rightarrow> bool" where
  "log_inv env files st \<longleftrightarrow>
     map snd (claims (events st)) = [0..<nextIndex st] \<and>
     invocations (events st) =
       map (\<lambda>i. (i, invoke env (files ! i))) [0..<min (nextIndex st) (length files)] \<and>
     in_flight (events st) = int (length (suspended st)) \<and>
     within (int (length (workers st))) 0 (events st)"

definition slot_inv :: "'c common \<Rightarrow> string list \<Rightarrow> 'c pstate \<Rightarrow> bool" where
  "slot_inv env files st \<longleftrightarrow>
     length (results st) = length files \<and>
     distinct (map snd (stores (events st))) \<and>
     set (stores (events st)) \<subseteq> set (claims (events st)) \<and>
     distinct (settlements (events st)) \<and>
     snd ` set (stores (events st)) \<subseteq> set (settlements (events st)) \<and>
     (rejected st = None \<longrightarrow> set (settlements (events st)) \<subseteq> snd ` set (stores (events st))) \<and>
     (\<forall>i \<in> snd ` set (stores (events st)). i < length files \<and>
        (\<exists>r. settle env (invoke env (files ! i)) = Inr r \<and> results st ! i = Some r)) \<and>
     (\<forall>i < length files. i \<notin> snd ` set (stores (events st)) \<longrightarrow> results st ! i = None)"

definition worker_inv :: "'c common \<Rightarrow> string list \<Rightarrow> 'c pstate \<Rightarrow> bool" where
  "worker_inv env files st \<longleftrightarrow>
     (\<forall>w < length (workers st). \<forall>i c. workers st ! w = Awaiting i c \<longrightarrow>
        i < length files \<and> i < nextIndex st \<and> c = invoke env (files ! i) \<and>
        (w, i) \<in> set (claims (events st)) \<and> i \<notin> set (settlements (events st))) \<and>
     (\<forall>w < length (workers st). \<forall>w' < length (workers st). \<forall>i c c'.
        workers st ! w = Awaiting i c \<longrightarrow> workers st ! w' = Awaiting i c' \<longrightarrow> w = w') \<and>
     (\<forall>w < length (workers st). workers st ! w = Returned \<longrightarrow> length files < nextIndex st) \<and>
     (\<forall>i \<in> set (settlements (events st)). i < nextIndex st \<and> i < length files)"

definition cover_inv :: "string list \<Rightarrow> 'c pstate \<Rightarrow> bool" where
  "cover_inv files st \<longleftrightarrow>
     (\<forall>i < nextIndex st. i < length files \<longrightarrow>
        i \<in> set (settlements (events st)) \<or>
        (\<exists>w < length (workers st). \<exists>c. workers st ! w = Awaiting i c))"

lemma suspended_append:
  "int (length (suspended (st\<lparr>workers := workers st @ [v]\<rparr>))) =
   int (length (suspended st)) + (if awaiting v then 1 else 0)"
  by (simp add: suspended_filter)

lemma suspended_le: "length (suspended st) \<le> length (workers st)"
  by (simp add: suspended_filter)

lemma suspended_workers_cong: "workers st' = workers st \<Longrightarrow> suspended st' = suspended st"
  by (simp add: suspended_def)

lemma rejected_workers_cong: "workers st' = workers st \<Longrightarrow> rejected st' = rejected st"
  by (simp add: rejected_def)

lemma log_inv_init: "log_inv env files (init files)"
  by (simp add: log_inv_def init_def suspended_def)

lemma slot_inv_init: "slot_inv env files (init files)"
  by (simp add: slot_inv_def init_def)

lemma worker_inv_init: "worker_inv env files (init files)"
  by (simp add: worker_inv_def init_def)

lemma log_inv_spawn:
  assumes "log_inv env files st"
  shows "log_inv env files (spawn env files st)"
proof (cases "nextIndex st < length files")
  case True
  have s: "int (length (suspended (st\<lparr>nextIndex := Suc (nextIndex st),
        workers := workers st @ [Awaiting (nextIndex st) (invoke env (files ! nextIndex st))],
        events := events st @
          [Claimed (length (workers st)) (nextIndex st),
           Announced (nextIndex st), Invoked (nextIndex st) (invoke env (files ! nextIndex st))]\<rparr>))) 
     = int (length (suspended st)) + 1"
    by (simp add: suspended_filter)
  from assms have w: "within (1 + int (length (workers st))) 0 (events st)"
    by (auto simp: log_inv_def elim: within_mono)
  show ?thesis using assms True s w suspended_le[of st]
    by (simp add: spawn_next log_inv_def within_append min_def)
next
  case False
  have s: "int (length (suspended (st\<lparr>nextIndex := Suc (nextIndex st), workers := workers st @ [Returned],
        events := events st @ [Claimed (length (workers st)) (nextIndex st)]\<rparr>))) 
     = int (length (suspended st))"
    by (simp add: suspended_filter)
  from assms have w: "within (1 + int (length (workers st))) 0 (events st)"
    by (auto simp: log_inv_def elim: within_mono)
  show ?thesis using assms False s w suspended_le[of st]
    by (simp add: spawn_last log_inv_def within_append min_def)
qed


lemma slot_inv_spawn:
  assumes "slot_inv env files st"
  shows "slot_inv env files (spawn env files st)"
proof (cases "nextIndex st < length files")
  case True
  have r: "rejected (st\<lparr>nextIndex := Suc (nextIndex st),
        workers := workers st @ [Awaiting (nextIndex st) (invoke env (files ! nextIndex st))],
        events := events st @
          [Claimed (length (workers st)) (nextIndex st),
           Announced (nextIndex st), Invoked (nextIndex st) (invoke env (files ! nextIndex st))]\<rparr>) = None
       \<longleftrightarrow> rejected st = None"
    by (auto simp: rejected_None_iff)
  show ?thesis using assms True unfolding spawn_next[OF True] slot_inv_def r
    by auto
next
  case False
  then have F: "length files \<le> nextIndex st" by simp
  have r: "rejected (st\<lparr>nextIndex := Suc (nextIndex st), workers := workers st @ [Returned],
        events := events st @ [Claimed (length (workers st)) (nextIndex st)]\<rparr>) = None
       \<longleftrightarrow> rejected st = None"
    by (auto simp: rejected_None_iff)
  show ?thesis using assms unfolding spawn_last[OF F] slot_inv_def r
    by auto
qed

lemma worker_inv_spawn:
  assumes "worker_inv env files st"
  shows "worker_inv env files (spawn env files st)"
proof (cases "nextIndex st < length files")
  case True
  show ?thesis using assms True unfolding spawn_next[OF True] worker_inv_def
    by (auto simp: nth_append less_Suc_eq)
next
  case False
  then have F: "length files \<le> nextIndex st" by simp
  show ?thesis using assms F unfolding spawn_last[OF F] worker_inv_def
    by (auto simp: nth_append less_Suc_eq)
qed

lemma cover_inv_init: "cover_inv files (init files)"
  by (simp add: cover_inv_def init_def)

lemma cover_inv_spawn:
  assumes "cover_inv files st"
  shows "cover_inv files (spawn env files st)"
proof (cases "nextIndex st < length files")
  case True
  show ?thesis unfolding spawn_next[OF True] cover_inv_def
  proof (intro allI impI)
    fix i
    let ?st' = "st\<lparr>nextIndex := Suc (nextIndex st),
                workers := workers st @ [Awaiting (nextIndex st) (invoke env (files ! nextIndex st))],
                events := events st @ [Claimed (length (workers st)) (nextIndex st), Announced (nextIndex st),
                         Invoked (nextIndex st) (invoke env (files ! nextIndex st))]\<rparr>"
    assume a: "i < nextIndex ?st'" "i < length files"
    show "i \<in> set (settlements (events ?st')) \<or> (\<exists>w<length (workers ?st'). \<exists>c. workers ?st' ! w = Awaiting i c)"
    proof (cases "i = nextIndex st")
      case True
      then have "length (workers st) < length (workers ?st') \<and> workers ?st' ! length (workers st) = Awaiting i (invoke env (files ! nextIndex st))"
        by simp
      then show ?thesis by blast
    next
      case False
      with a have "i < nextIndex st" by simp
      with assms a have "i \<in> set (settlements (events st)) \<or> (\<exists>w<length (workers st). \<exists>c. workers st ! w = Awaiting i c)"
        by (simp add: cover_inv_def)
      then show ?thesis
      proof
        assume "i \<in> set (settlements (events st))" then show ?thesis by simp
      next
        assume "\<exists>w<length (workers st). \<exists>c. workers st ! w = Awaiting i c"
        then obtain w c where "w < length (workers st)" "workers st ! w = Awaiting i c" by blast
        then have "w < length (workers ?st') \<and> workers ?st' ! w = Awaiting i c" by (simp add: nth_append)
        then show ?thesis by blast
      qed
    qed
  qed
next
  case False
  then have F: "length files \<le> nextIndex st" by simp
  show ?thesis unfolding spawn_last[OF F] cover_inv_def
  proof (intro allI impI)
    fix i
    let ?st' = "st\<lparr>nextIndex := Suc (nextIndex st), workers := workers st @ [Returned],
        events := events st @ [Claimed (length (workers st)) (nextIndex st)]\<rparr>"
    assume a: "i < nextIndex ?st'" "i < length files"
    with F have "i < nextIndex st" by simp
    with assms a have "i \<in> set (settlements (events st)) \<or> (\<exists>w<length (workers st). \<exists>c. workers st ! w = Awaiting i c)"
      by (simp add: cover_inv_def)
    then show "i \<in> set (settlements (events ?st')) \<or> (\<exists>w<length (workers ?st'). \<exists>c. workers ?st' ! w = Awaiting i c)"
    proof
      assume "i \<in> set (settlements (events st))" then show ?thesis by simp
    next
      assume "\<exists>w<length (workers st). \<exists>c. workers st ! w = Awaiting i c"
      then obtain w c where "w < length (workers st)" "workers st ! w = Awaiting i c" by blast
      then have "w < length (workers ?st') \<and> workers ?st' ! w = Awaiting i c" by (simp add: nth_append)
      then show ?thesis by blast
    qed
  qed
qed


lemma suspended_upd:
  "workers st' = (workers st)[w := v] \<Longrightarrow> w < length (workers st) \<Longrightarrow> awaiting (workers st ! w) \<Longrightarrow>
   int (length (suspended st')) = int (length (suspended st)) - 1 + (if awaiting v then 1 else 0)"
  using filter_update_count[of w "workers st" awaiting v]
  by (cases "awaiting v") (simp_all add: suspended_filter)

lemma log_inv_resume:
  assumes inv: "log_inv env files st"
    and w: "w < length (workers st)" and a: "workers st ! w = Awaiting i c"
  shows "log_inv env files (resume env files w st)"
proof -
  from a have aw: "awaiting (workers st ! w)" by simp
  from inv have fl: "in_flight (events st) = int (length (suspended st))"
    and wi: "within (int (length (workers st))) 0 (events st)"
    by (simp_all add: log_inv_def)
  have le: "int (length (suspended st)) \<le> int (length (workers st))"
    using suspended_le[of st] by simp
  show ?thesis
  proof (cases "settle env c")
    case (Inl e)
    note eq = resume_reject[OF a Inl, of files]
    have s: "int (length (suspended (resume env files w st))) = int (length (suspended st)) - 1"
      using suspended_upd[of "resume env files w st" st w "Threw e", OF _ w aw] by (simp add: eq)
    have "nextIndex (resume env files w st) = nextIndex st"
      "events (resume env files w st) = events st @ [Settled i]"
      "length (workers (resume env files w st)) = length (workers st)"
      by (simp_all add: eq)
    then show ?thesis using inv s le
      by (simp add: log_inv_def within_append)
  next
    case (Inr r)
    show ?thesis
    proof (cases "nextIndex st < length files")
      case True
      note eq = resume_next[OF a Inr True]
      have s: "int (length (suspended (resume env files w st))) = int (length (suspended st))"
        using suspended_upd[of "resume env files w st" st w
            "Awaiting (nextIndex st) (invoke env (files ! nextIndex st))", OF _ w aw] by (simp add: eq)
      have "nextIndex (resume env files w st) = Suc (nextIndex st)"
        "events (resume env files w st) = events st @
          [Settled i, Stored w i, Reported i (success r), Claimed w (nextIndex st),
           Announced (nextIndex st), Invoked (nextIndex st) (invoke env (files ! nextIndex st))]"
        "length (workers (resume env files w st)) = length (workers st)"
        by (simp_all add: eq)
      then show ?thesis using inv s le True
        by (simp add: log_inv_def within_append min_def)
    next
      case False
      then have F: "length files \<le> nextIndex st" by simp
      note eq = resume_last[OF a Inr F]
      have s: "int (length (suspended (resume env files w st))) = int (length (suspended st)) - 1"
        using suspended_upd[of "resume env files w st" st w Returned, OF _ w aw] by (simp add: eq)
      have "nextIndex (resume env files w st) = Suc (nextIndex st)"
        "events (resume env files w st) = events st @
          [Settled i, Stored w i, Reported i (success r), Claimed w (nextIndex st)]"
        "length (workers (resume env files w st)) = length (workers st)"
        by (simp_all add: eq)
      then show ?thesis using inv s le F
        by (simp add: log_inv_def within_append min_def)
    qed
  qed
qed


lemma awaiting_facts:
  assumes "worker_inv env files st" "w < length (workers st)" "workers st ! w = Awaiting i c"
  shows "i < length files" "i < nextIndex st" "c = invoke env (files ! i)"
    "(w, i) \<in> set (claims (events st))" "i \<notin> set (settlements (events st))"
  using assms unfolding worker_inv_def by blast+

lemma rejected_update:
  "workers st' = (workers st)[w := v] \<Longrightarrow> rejected st = None \<Longrightarrow> rejection v = None \<Longrightarrow>
   rejected st' = None"
  by (cases v) (auto simp: rejected_None_iff dest!: set_update_subset_insert[THEN subsetD])

lemma slot_inv_resume:
  assumes inv: "slot_inv env files st" and winv: "worker_inv env files st"
    and rej: "rejected st = None"
    and w: "w < length (workers st)" and a: "workers st ! w = Awaiting i c"
  shows "slot_inv env files (resume env files w st)"
proof -
  note f = awaiting_facts[OF winv w a]
  from inv f have ns: "i \<notin> snd ` set (stores (events st))"
    unfolding slot_inv_def by blast
  from inv have len: "length (results st) = length files" by (simp add: slot_inv_def)
  show ?thesis
  proof (cases "settle env c")
    case (Inl e)
    note eq = resume_reject[OF a Inl, of files]
    have "Threw e \<in> set ((workers st)[w := Threw e])"
      using w by (rule set_update_memI)
    then have "rejected (resume env files w st) \<noteq> None"
      by (auto simp: eq rejected_None_iff)
    moreover have "events (resume env files w st) = events st @ [Settled i]"
      "results (resume env files w st) = results st"
      by (simp_all add: eq)
    ultimately show ?thesis using inv f unfolding slot_inv_def
      by auto
  next
    case (Inr r)
    have common: "slot_inv env files st'"
      if ev: "stores (events st') = stores (events st) @ [(w, i)]"
        "settlements (events st') = settlements (events st) @ [i]"
        "set (claims (events st)) \<subseteq> set (claims (events st'))"
        "results st' = (results st)[i := Some r]" for st'
      unfolding slot_inv_def
    proof (intro conjI)
      show "length (results st') = length files" using len ev by simp
      show "distinct (map snd (stores (events st')))" using inv ns ev by (simp add: slot_inv_def)
      show "set (stores (events st')) \<subseteq> set (claims (events st'))"
        using inv f ev by (auto simp: slot_inv_def)
      show "distinct (settlements (events st'))" using inv f ev by (simp add: slot_inv_def)
      show "snd ` set (stores (events st')) \<subseteq> set (settlements (events st'))"
        using inv ev by (auto simp: slot_inv_def)
      show "rejected st' = None \<longrightarrow> set (settlements (events st')) \<subseteq> snd ` set (stores (events st'))"
        using inv rej ev by (auto simp: slot_inv_def)
      show "\<forall>j\<in>snd ` set (stores (events st')). j < length files \<and>
          (\<exists>r. settle env (invoke env (files ! j)) = Inr r \<and> results st' ! j = Some r)"
      proof
        fix j assume "j \<in> snd ` set (stores (events st'))"
        then have "j = i \<or> j \<in> snd ` set (stores (events st))" using ev by auto
        then show "j < length files \<and>
          (\<exists>r. settle env (invoke env (files ! j)) = Inr r \<and> results st' ! j = Some r)"
        proof
          assume "j = i"
          then show ?thesis using f Inr len ev by simp
        next
          assume j: "j \<in> snd ` set (stores (events st))"
          with ns have "j \<noteq> i" by blast
          with j inv show ?thesis using ev by (auto simp: slot_inv_def)
        qed
      qed
      show "\<forall>j<length files. j \<notin> snd ` set (stores (events st')) \<longrightarrow> results st' ! j = None"
        using inv ev by (auto simp: slot_inv_def)
    qed
    show ?thesis
    proof (cases "nextIndex st < length files")
      case True
      show ?thesis by (rule common) (auto simp: resume_next[OF a Inr True])
    next
      case False
      then have F: "length files \<le> nextIndex st" by simp
      show ?thesis by (rule common) (auto simp: resume_last[OF a Inr F])
    qed
  qed
qed


lemma worker_inv_resume:
  assumes winv: "worker_inv env files st"
    and w: "w < length (workers st)" and a: "workers st ! w = Awaiting i c"
  shows "worker_inv env files (resume env files w st)"
proof -
  note f = awaiting_facts[OF winv w a]
  have other: "j \<noteq> i" if "u < length (workers st)" "u \<noteq> w" "workers st ! u = Awaiting j d" for u j d
    using winv w a that unfolding worker_inv_def by blast
  have common: "worker_inv env files st'"
    if st': "length (workers st') = length (workers st)"
      "workers st' ! w = v" "\<And>u. u < length (workers st) \<Longrightarrow> u \<noteq> w \<Longrightarrow> workers st' ! u = workers st ! u"
      "nextIndex st \<le> nextIndex st'"
      "set (claims (events st)) \<subseteq> set (claims (events st'))"
      "set (settlements (events st')) = insert i (set (settlements (events st)))"
      and v: "\<And>j d. v = Awaiting j d \<Longrightarrow> j = nextIndex st \<and> j < length files \<and> j < nextIndex st' \<and>
           d = invoke env (files ! j) \<and> (w, j) \<in> set (claims (events st'))"
         "v = Returned \<Longrightarrow> length files < nextIndex st'"
    for st' v
  proof -
    have c1: "\<forall>u < length (workers st'). \<forall>j d. workers st' ! u = Awaiting j d \<longrightarrow>
        j < length files \<and> j < nextIndex st' \<and> d = invoke env (files ! j) \<and>
        (u, j) \<in> set (claims (events st')) \<and> j \<notin> set (settlements (events st'))"
    proof (intro allI impI)
      fix u j d assume u: "u < length (workers st')" "workers st' ! u = Awaiting j d"
      show "j < length files \<and> j < nextIndex st' \<and> d = invoke env (files ! j) \<and>
          (u, j) \<in> set (claims (events st')) \<and> j \<notin> set (settlements (events st'))"
      proof (cases "u = w")
        case True
        with u st' have "v = Awaiting j d" by simp
        from v(1)[OF this] f show ?thesis using True st' winv
          by (auto simp: worker_inv_def)
      next
        case False
        with u st' have old: "u < length (workers st)" "workers st ! u = Awaiting j d" by simp_all
        from awaiting_facts[OF winv old] other[OF old(1) False old(2)] st'
        show ?thesis by auto
      qed
    qed
    have c2: "\<forall>u < length (workers st'). \<forall>u' < length (workers st'). \<forall>j d d'.
        workers st' ! u = Awaiting j d \<longrightarrow> workers st' ! u' = Awaiting j d' \<longrightarrow> u = u'"
    proof (intro allI impI)
      fix u u' j d d'
      assume u: "u < length (workers st')" "u' < length (workers st')"
        "workers st' ! u = Awaiting j d" "workers st' ! u' = Awaiting j d'"
      have lt: "j' < nextIndex st" if "x < length (workers st)" "workers st ! x = Awaiting j' e" for x j' e
        using awaiting_facts(2)[OF winv that] .
      show "u = u'"
      proof (cases "u = w"; cases "u' = w")
        assume "u = w" "u' = w" then show ?thesis by simp
      next
        assume c: "u = w" "u' \<noteq> w"
        with u st' have "v = Awaiting j d" "workers st ! u' = Awaiting j d'" by simp_all
        with v(1) lt[of u'] c u st' show ?thesis by fastforce
      next
        assume c: "u \<noteq> w" "u' = w"
        with u st' have "v = Awaiting j d'" "workers st ! u = Awaiting j d" by simp_all
        with v(1) lt[of u] c u st' show ?thesis by fastforce
      next
        assume c: "u \<noteq> w" "u' \<noteq> w"
        with u st' have "workers st ! u = Awaiting j d" "workers st ! u' = Awaiting j d'" by simp_all
        with winv u st' show ?thesis unfolding worker_inv_def by metis
      qed
    qed
    have c3: "\<forall>u < length (workers st'). workers st' ! u = Returned \<longrightarrow> length files < nextIndex st'"
    proof (intro allI impI)
      fix u assume u: "u < length (workers st')" "workers st' ! u = Returned"
      show "length files < nextIndex st'"
      proof (cases "u = w")
        case True
        with u st' v show ?thesis by simp
      next
        case False
        with u st' have "u < length (workers st)" "workers st ! u = Returned" by simp_all
        with winv have "length files < nextIndex st" unfolding worker_inv_def by blast
        with st' show ?thesis by simp
      qed
    qed
    have c4: "\<forall>j \<in> set (settlements (events st')). j < nextIndex st' \<and> j < length files"
    proof
      fix j assume "j \<in> set (settlements (events st'))"
      with st' have "j = i \<or> j \<in> set (settlements (events st))" by auto
      with f winv st' show "j < nextIndex st' \<and> j < length files" unfolding worker_inv_def by auto
    qed
    show ?thesis unfolding worker_inv_def by (intro conjI c1 c2 c3 c4)
  qed
  show ?thesis
  proof (cases "settle env c")
    case (Inl e)
    show ?thesis
      by (rule common[where v = "Threw e"]) (use w in \<open>auto simp: resume_reject[OF a Inl]\<close>)
  next
    case (Inr r)
    show ?thesis
    proof (cases "nextIndex st < length files")
      case True
      show ?thesis
        by (rule common[where v = "Awaiting (nextIndex st) (invoke env (files ! nextIndex st))"])
           (use w True in \<open>auto simp: resume_next[OF a Inr True]\<close>)
    next
      case False
      then have F: "length files \<le> nextIndex st" by simp
      show ?thesis
        by (rule common[where v = Returned]) (use w F in \<open>auto simp: resume_last[OF a Inr F]\<close>)
    qed
  qed
qed


lemma cover_inv_resume:
  assumes cinv: "cover_inv files st"
    and w: "w < length (workers st)" and a: "workers st ! w = Awaiting i c"
  shows "cover_inv files (resume env files w st)"
proof -
  have common: "cover_inv files st'"
    if st': "length (workers st') = length (workers st)"
      "\<And>u. u < length (workers st) \<Longrightarrow> u \<noteq> w \<Longrightarrow> workers st' ! u = workers st ! u"
      "set (settlements (events st')) = insert i (set (settlements (events st)))"
      and nxt: "nextIndex st' = nextIndex st \<or>
         nextIndex st' = Suc (nextIndex st) \<and>
         (length files \<le> nextIndex st \<or> (\<exists>d. workers st' ! w = Awaiting (nextIndex st) d))"
    for st'
    unfolding cover_inv_def
  proof (intro allI impI)
    fix j assume j: "j < nextIndex st'" "j < length files"
    show "j \<in> set (settlements (events st')) \<or>
          (\<exists>u<length (workers st'). \<exists>d. workers st' ! u = Awaiting j d)"
    proof (cases "j < nextIndex st")
      case True
      with cinv j have "j \<in> set (settlements (events st)) \<or>
          (\<exists>u<length (workers st). \<exists>d. workers st ! u = Awaiting j d)"
        by (simp add: cover_inv_def)
      then show ?thesis
      proof
        assume "j \<in> set (settlements (events st))"
        with st' show ?thesis by simp
      next
        assume "\<exists>u<length (workers st). \<exists>d. workers st ! u = Awaiting j d"
        then obtain u d where u: "u < length (workers st)" "workers st ! u = Awaiting j d" by blast
        show ?thesis
        proof (cases "u = w")
          case True
          with u a have "j = i" by simp
          with st' show ?thesis by simp
        next
          case False
          with u st' have "u < length (workers st') \<and> workers st' ! u = Awaiting j d" by simp
          then show ?thesis by blast
        qed
      qed
    next
      case False
      with j nxt have "j = nextIndex st" "\<exists>d. workers st' ! w = Awaiting (nextIndex st) d"
        by auto
      with w st' show ?thesis by auto
    qed
  qed
  show ?thesis
  proof (cases "settle env c")
    case (Inl e)
    show ?thesis
      by (rule common) (use w in \<open>auto simp: resume_reject[OF a Inl]\<close>)
  next
    case (Inr r)
    show ?thesis
    proof (cases "nextIndex st < length files")
      case True
      show ?thesis
        by (rule common) (use w True in \<open>auto simp: resume_next[OF a Inr True]\<close>)
    next
      case False
      then have F: "length files \<le> nextIndex st" by simp
      show ?thesis
        by (rule common) (use w F in \<open>auto simp: resume_last[OF a Inr F]\<close>)
    qed
  qed
qed

definition reject_inv :: "'c common \<Rightarrow> string list \<Rightarrow> 'c pstate \<Rightarrow> bool" where
  "reject_inv env files st \<longleftrightarrow>
     (\<forall>w < length (workers st). \<forall>e. workers st ! w = Threw e \<longrightarrow>
        (\<exists>i < length files. settle env (invoke env (files ! i)) = Inl e))"

lemma reject_inv_init: "reject_inv env files (init files)"
  by (simp add: reject_inv_def init_def)

lemma reject_inv_spawn:
  assumes "reject_inv env files st"
  shows "reject_inv env files (spawn env files st)"
proof (cases "nextIndex st < length files")
  case True
  show ?thesis using assms unfolding spawn_next[OF True] reject_inv_def
    by (auto simp: nth_append less_Suc_eq)
next
  case False
  then have F: "length files \<le> nextIndex st" by simp
  show ?thesis using assms unfolding spawn_last[OF F] reject_inv_def
    by (auto simp: nth_append less_Suc_eq)
qed

lemma reject_inv_resume:
  assumes rinv: "reject_inv env files st" and winv: "worker_inv env files st"
    and w: "w < length (workers st)" and a: "workers st ! w = Awaiting i c"
  shows "reject_inv env files (resume env files w st)"
proof -
  note f = awaiting_facts[OF winv w a]
  have common: "reject_inv env files st'"
    if st': "workers st' = (workers st)[w := v]"
      and v: "\<And>e. v = Threw e \<Longrightarrow> settle env c = Inl e" for st' v
    unfolding reject_inv_def
  proof (intro allI impI)
    fix u e assume u: "u < length (workers st')" "workers st' ! u = Threw e"
    show "\<exists>i<length files. settle env (invoke env (files ! i)) = Inl e"
    proof (cases "u = w")
      case True
      with u st' w have "v = Threw e" by simp
      from v[OF this] f show ?thesis by auto
    next
      case False
      with u st' have "u < length (workers st)" "workers st ! u = Threw e" by simp_all
      with rinv show ?thesis unfolding reject_inv_def by blast
    qed
  qed
  show ?thesis
  proof (cases "settle env c")
    case (Inl e)
    show ?thesis
      by (rule common[where v = "Threw e"]) (auto simp: resume_reject[OF a Inl] Inl)
  next
    case (Inr r)
    show ?thesis
    proof (cases "nextIndex st < length files")
      case True
      show ?thesis
        by (rule common[where v = "Awaiting (nextIndex st) (invoke env (files ! nextIndex st))"])
           (auto simp: resume_next[OF a Inr True])
    next
      case False
      then have F: "length files \<le> nextIndex st" by simp
      show ?thesis
        by (rule common[where v = Returned]) (auto simp: resume_last[OF a Inr F])
    qed
  qed
qed

text \<open>All invariants together.\<close>

definition pool_inv :: "'c common \<Rightarrow> string list \<Rightarrow> 'c pstate \<Rightarrow> bool" where
  "pool_inv env files st \<longleftrightarrow>
     log_inv env files st \<and> slot_inv env files st \<and> worker_inv env files st \<and>
     cover_inv files st \<and> reject_inv env files st"

lemma pool_inv_init: "pool_inv env files (init files)"
  by (simp add: pool_inv_def log_inv_init slot_inv_init worker_inv_init cover_inv_init reject_inv_init)

lemma pool_inv_spawn: "pool_inv env files st \<Longrightarrow> pool_inv env files (spawn env files st)"
  by (simp add: pool_inv_def log_inv_spawn slot_inv_spawn worker_inv_spawn cover_inv_spawn
      reject_inv_spawn)

lemma pool_inv_spawn_loop: "pool_inv env files st \<Longrightarrow> pool_inv env files (spawn_loop env files n st)"
  by (induction n arbitrary: st) (simp_all add: pool_inv_spawn)

lemma pool_inv_launched: "pool_inv env files (launched env files n)"
  by (simp add: launched_def pool_inv_spawn_loop pool_inv_init)

lemma pool_inv_resume:
  assumes "pool_inv env files st" "rejected st = None" "w \<in> set (suspended st)"
  shows "pool_inv env files (resume env files w st)"
proof -
  from assms(3) have w: "w < length (workers st)" and "awaiting (workers st ! w)"
    by (simp_all add: suspended_iff)
  then obtain i c where a: "workers st ! w = Awaiting i c"
    by (cases "workers st ! w") auto
  from assms(1,2) show ?thesis
    by (simp add: pool_inv_def log_inv_resume[OF _ w a] slot_inv_resume[OF _ _ _ w a]
        worker_inv_resume[OF _ w a] cover_inv_resume[OF _ w a] reject_inv_resume[OF _ _ w a])
qed

lemma length_workers_spawn [simp]: "length (workers (spawn env files st)) = Suc (length (workers st))"
  by (simp add: spawn_def claim_def Let_def)

lemma length_workers_spawn_loop [simp]:
  "length (workers (spawn_loop env files n st)) = length (workers st) + n"
  by (induction n arbitrary: st) simp_all

lemma length_workers_launched [simp]: "length (workers (launched env files n)) = n"
  by (simp add: launched_def init_def)

lemma length_workers_resume [simp]: "length (workers (resume env files w st)) = length (workers st)"
  by (simp add: resume_def claim_def Let_def split: wstate.splits sum.splits)

lemma pool_inv_drain:
  "pool_inv env files st \<Longrightarrow> pool_inv env files (drain env files order st)"
proof (induction env files order st rule: drain.induct)
  case (1 env files order st)
  show ?case
  proof (cases "settled st")
    case True
    with 1 show ?thesis by simp
  next
    case False
    then have "rejected st = None" "suspended st \<noteq> []" by (simp_all add: settled_def)
    with 1(2) have "pool_inv env files (resume env files (pick order st) st)"
      by (simp add: pool_inv_resume pick_suspended)
    with 1(1)[OF False] False show ?thesis by simp
  qed
qed

lemma settled_drain: "settled (drain env files order st)"
proof (induction env files order st rule: drain.induct)
  case (1 env files order st)
  then show ?case by (cases "settled st") simp_all
qed

lemma length_workers_drain [simp]: "length (workers (drain env files order st)) = length (workers st)"
proof (induction env files order st rule: drain.induct)
  case (1 env files order st)
  then show ?case by (cases "settled st") simp_all
qed

lemma reachable_pool_inv: "reachable env files concurrency st \<Longrightarrow> pool_inv env files st"
  by (induction rule: reachable.induct) (simp_all add: pool_inv_launched pool_inv_resume settled_def)

lemma reachable_workers: "reachable env files concurrency st \<Longrightarrow> length (workers st) \<le> pool_size concurrency files"
  by (induction rule: reachable.induct) simp_all

lemma pool_invD:
  assumes "pool_inv env files st"
  shows "log_inv env files st" "slot_inv env files st" "worker_inv env files st"
    "cover_inv files st" "reject_inv env files st"
  using assms by (simp_all add: pool_inv_def)

lemma worker_inv_Returned:
  "worker_inv env files st \<Longrightarrow> w < length (workers st) \<Longrightarrow> workers st ! w = Returned \<Longrightarrow>
   length files < nextIndex st"
  by (simp add: worker_inv_def)

lemma worker_inv_settled:
  "worker_inv env files st \<Longrightarrow> i \<in> set (settlements (events st)) \<Longrightarrow> i < length files"
  by (simp add: worker_inv_def)

lemma cover_invD:
  "cover_inv files st \<Longrightarrow> i < nextIndex st \<Longrightarrow> i < length files \<Longrightarrow>
   i \<in> set (settlements (events st)) \<or> (\<exists>w<length (workers st). \<exists>c. workers st ! w = Awaiting i c)"
  by (simp add: cover_inv_def)

lemma slot_inv_stored_eq:
  "slot_inv env files st \<Longrightarrow> rejected st = None \<Longrightarrow>
   snd ` set (stores (events st)) = set (settlements (events st))"
  by (simp add: slot_inv_def subset_antisym)

lemma slot_inv_stored:
  "slot_inv env files st \<Longrightarrow> i \<in> snd ` set (stores (events st)) \<Longrightarrow>
   \<exists>r. settle env (invoke env (files ! i)) = Inr r \<and> results st ! i = Some r"
  unfolding slot_inv_def by (elim conjE) (drule (1) bspec, simp)

lemma reject_invD:
  "reject_inv env files st \<Longrightarrow> w < length (workers st) \<Longrightarrow> workers st ! w = Threw e \<Longrightarrow>
   \<exists>i < length files. settle env (invoke env (files ! i)) = Inl e"
  by (simp add: reject_inv_def)

lemma reachable_drain:
  "reachable env files concurrency st \<Longrightarrow> length (workers st) = pool_size concurrency files \<Longrightarrow>
   reachable env files concurrency (drain env files order st)"
proof (induction env files order st rule: drain.induct)
  case (1 env files order st)
  show ?case
  proof (cases "settled st")
    case True
    with 1 show ?thesis by simp
  next
    case False
    then have "suspended st \<noteq> []" by (simp add: settled_def)
    then have "pick order st \<in> set (suspended st)" by (rule pick_suspended)
    with 1(2,3) False have "reachable env files concurrency (resume env files (pick order st) st)"
      by (rule reachable.resuming)
    with 1(1)[OF False] 1(3) False show ?thesis by simp
  qed
qed

lemma reachable_run_parallel: "reachable env files concurrency (run_parallel env files concurrency order)"
proof -
  have "reachable env files concurrency (launched env files (pool_size concurrency files))"
    by (rule reachable.launching) simp
  then show ?thesis unfolding run_parallel_def
    by (rule reachable_drain) simp
qed

lemma pool_inv_run_parallel: "pool_inv env files (run_parallel env files concurrency order)"
  by (simp add: run_parallel_def pool_inv_drain pool_inv_launched)

lemma settled_run_parallel: "settled (run_parallel env files concurrency order)"
  by (simp add: run_parallel_def settled_drain)

lemma length_workers_run_parallel [simp]:
  "length (workers (run_parallel env files concurrency order)) = pool_size concurrency files"
  by (simp add: run_parallel_def)

text \<open>Every state in which \<^verbatim>\<open>Promise.all\<close> can settle is the end of the run under
  some completion order.\<close>

lemma reachable_as_order:
  assumes "reachable env files concurrency st" "length (workers st) = pool_size concurrency files"
  shows "\<exists>order. \<forall>rest. drain env files (order @ rest) (launched env files (pool_size concurrency files))
      = drain env files rest st"
  using assms
proof (induction rule: reachable.induct)
  case (launching n)
  then have "n = pool_size concurrency files" by simp
  then have "\<forall>rest. drain env files ([] @ rest) (launched env files (pool_size concurrency files))
      = drain env files rest (launched env files n)" by simp
  then show ?case by blast
next
  case (resuming st w)
  from resuming.IH[OF resuming.hyps(2)] obtain order where
    o: "\<And>rest. drain env files (order @ rest) (launched env files (pool_size concurrency files))
      = drain env files rest st" by blast
  from resuming.hyps(4) obtain c where c: "c < length (suspended st)" "suspended st ! c = w"
    by (auto simp: in_set_conv_nth)
  have "drain env files ((order @ [c]) @ rest) (launched env files (pool_size concurrency files))
      = drain env files rest (resume env files w st)" for rest
  proof -
    have "drain env files ((order @ [c]) @ rest) (launched env files (pool_size concurrency files))
      = drain env files (c # rest) st" using o[of "c # rest"] by simp
    also have "\<dots> = drain env files rest (resume env files (pick (c # rest) st) st)"
      using resuming.hyps(3) by simp
    also have "pick (c # rest) st = w" using c by (simp add: pick_def)
    finally show ?thesis .
  qed
  then show ?case by blast
qed

lemma settled_state_is_run:
  assumes "reachable env files concurrency st" "length (workers st) = pool_size concurrency files"
    "settled st"
  shows "\<exists>order. st = run_parallel env files concurrency order"
proof -
  from reachable_as_order[OF assms(1,2)] obtain order where
    "drain env files (order @ []) (launched env files (pool_size concurrency files))
      = drain env files [] st" by blast
  with assms(3) have "st = run_parallel env files concurrency order"
    by (simp add: run_parallel_def)
  then show ?thesis ..
qed

text \<open>What holds when \<^verbatim>\<open>Promise.all\<close> has resolved.\<close>

lemma resolved_all_returned:
  assumes "settled st" "rejected st = None" "w < length (workers st)"
  shows "workers st ! w = Returned"
proof -
  from assms have "suspended st = []" by (simp add: settled_def)
  with assms(3) have "\<not> awaiting (workers st ! w)"
    using suspended_iff[of w st] by simp
  moreover from assms(2,3) have "\<forall>e. workers st ! w \<noteq> Threw e"
    by (simp add: rejected_None_iff)
  ultimately show ?thesis by (cases "workers st ! w") auto
qed

lemma resolved_cursor:
  assumes inv: "pool_inv env files st" and s: "settled st" and r: "rejected st = None"
    and len: "length (workers st) = pool_size concurrency files" and k: "1 \<le> concurrency"
  shows "length files \<le> nextIndex st"
proof (cases "files = []")
  case True
  then show ?thesis by simp
next
  case False
  with k len have w0: "0 < length (workers st)" by (simp add: pool_size_def)
  from resolved_all_returned[OF s r w0] have "workers st ! 0 = Returned" .
  from worker_inv_Returned[OF pool_invD(3)[OF inv] w0 this] show ?thesis by simp
qed

lemma resolved_settlements:
  assumes inv: "pool_inv env files st" and s: "settled st" and r: "rejected st = None"
    and len: "length (workers st) = pool_size concurrency files" and k: "1 \<le> concurrency"
  shows "set (settlements (events st)) = {..<length files}"
proof
  show "set (settlements (events st)) \<subseteq> {..<length files}"
    using worker_inv_settled[OF pool_invD(3)[OF inv]] by auto
next
  show "{..<length files} \<subseteq> set (settlements (events st))"
  proof
    fix i assume "i \<in> {..<length files}"
    then have i: "i < length files" by simp
    with resolved_cursor[OF inv s r len k] have "i < nextIndex st" by simp
    then have "i \<in> set (settlements (events st)) \<or>
        (\<exists>w<length (workers st). \<exists>c. workers st ! w = Awaiting i c)"
      using i by (rule cover_invD[OF pool_invD(4)[OF inv]])
    moreover have "\<not> (\<exists>w<length (workers st). \<exists>c. workers st ! w = Awaiting i c)"
      using resolved_all_returned[OF s r] by auto
    ultimately show "i \<in> set (settlements (events st))" by blast
  qed
qed

lemma resolved_stores:
  assumes inv: "pool_inv env files st" and s: "settled st" and r: "rejected st = None"
    and len: "length (workers st) = pool_size concurrency files" and k: "1 \<le> concurrency"
  shows "snd ` set (stores (events st)) = {..<length files}"
proof -
  from pool_invD(2)[OF inv] r have "snd ` set (stores (events st)) = set (settlements (events st))"
    by (rule slot_inv_stored_eq)
  with resolved_settlements[OF inv s r len k] show ?thesis by simp
qed

lemma resolved_slot:
  assumes inv: "pool_inv env files st" and s: "settled st" and r: "rejected st = None"
    and len: "length (workers st) = pool_size concurrency files" and k: "1 \<le> concurrency"
    and i: "i < length files"
  shows "\<exists>r. settle env (invoke env (files ! i)) = Inr r \<and> results st ! i = Some r"
proof -
  from i resolved_stores[OF inv s r len k] have "i \<in> snd ` set (stores (events st))" by simp
  with pool_invD(2)[OF inv] show ?thesis by (rule slot_inv_stored)
qed

lemma no_rejection:
  assumes inv: "pool_inv env files st"
    and ok: "\<forall>i<length files. \<exists>r. settle env (invoke env (files ! i)) = Inr r"
  shows "rejected st = None"
proof (rule ccontr)
  assume "rejected st \<noteq> None"
  then obtain x e where "x \<in> set (workers st)" "x = Threw e"
    by (auto simp: rejected_None_iff)
  then obtain w where "w < length (workers st)" "workers st ! w = Threw e"
    by (auto simp: in_set_conv_nth)
  with reject_invD[OF pool_invD(5)[OF inv]]
  obtain i where "i < length files" "settle env (invoke env (files ! i)) = Inl e"
    by blast
  with ok show False by fastforce
qed

subsection \<open>The sequential loop\<close>

lemma seq_loop_stop [simp]: "\<not> i < length allFiles \<Longrightarrow> seq_loop env allFiles i st = Inr st"
  by (subst seq_loop.simps) simp

lemma seq_loop_reject:
  "i < length allFiles \<Longrightarrow> settle env (invoke env (allFiles ! i)) = Inl e \<Longrightarrow>
   seq_loop env allFiles i st =
     Inl (e, st\<lparr>seq_events := seq_events st @
                  [Announced i, Invoked i (invoke env (allFiles ! i)), Settled i]\<rparr>)"
  by (subst seq_loop.simps) (simp add: Let_def)

lemma seq_loop_pass:
  "i < length allFiles \<Longrightarrow> settle env (invoke env (allFiles ! i)) = Inr r \<Longrightarrow> success r \<Longrightarrow>
   seq_loop env allFiles i st =
     seq_loop env allFiles (Suc i)
       (st\<lparr>seq_results := seq_results st @ [r], passed := Suc (passed st),
           seq_events := seq_events st @
             [Announced i, Invoked i (invoke env (allFiles ! i)), Settled i, Pushed i,
              Reported i True]\<rparr>)"
  by (subst seq_loop.simps) (simp add: Let_def)

lemma seq_loop_fail:
  "i < length allFiles \<Longrightarrow> settle env (invoke env (allFiles ! i)) = Inr r \<Longrightarrow> \<not> success r \<Longrightarrow>
   seq_loop env allFiles i st =
     seq_loop env allFiles (Suc i)
       (st\<lparr>seq_results := seq_results st @ [r], failed := Suc (failed st),
           seq_events := seq_events st @
             [Announced i, Invoked i (invoke env (allFiles ! i)), Settled i, Pushed i,
              Reported i False]\<rparr>)"
  by (subst seq_loop.simps) (simp add: Let_def)

text \<open>An induction rule that follows the four ways through the loop body.\<close>

lemma seq_loop_cases:
  assumes stop: "\<And>i st. \<not> i < length allFiles \<Longrightarrow> P i st"
    and reject: "\<And>i st e. i < length allFiles \<Longrightarrow>
        settle env (invoke env (allFiles ! i)) = Inl e \<Longrightarrow> P i st"
    and pass: "\<And>i st r. i < length allFiles \<Longrightarrow>
        settle env (invoke env (allFiles ! i)) = Inr r \<Longrightarrow> success r \<Longrightarrow>
        P (Suc i) (st\<lparr>seq_results := seq_results st @ [r], passed := Suc (passed st),
           seq_events := seq_events st @
             [Announced i, Invoked i (invoke env (allFiles ! i)), Settled i, Pushed i,
              Reported i True]\<rparr>) \<Longrightarrow> P i st"
    and fail: "\<And>i st r. i < length allFiles \<Longrightarrow>
        settle env (invoke env (allFiles ! i)) = Inr r \<Longrightarrow> \<not> success r \<Longrightarrow>
        P (Suc i) (st\<lparr>seq_results := seq_results st @ [r], failed := Suc (failed st),
           seq_events := seq_events st @
             [Announced i, Invoked i (invoke env (allFiles ! i)), Settled i, Pushed i,
              Reported i False]\<rparr>) \<Longrightarrow> P i st"
  shows "P i (st :: 'c sstate)"
proof (induction "length allFiles - i" arbitrary: i st)
  case 0
  then show ?case by (simp add: stop)
next
  case (Suc n)
  then have i: "i < length allFiles" by simp
  from Suc have n: "n = length allFiles - Suc i" by simp
  show ?case
  proof (cases "settle env (invoke env (allFiles ! i))")
    case (Inl e)
    with i show ?thesis by (rule reject)
  next
    case (Inr r)
    show ?thesis
    proof (cases "success r")
      case True
      with i Inr show ?thesis by (rule pass) (rule Suc(1)[OF n])
    next
      case False
      with i Inr show ?thesis by (rule fail) (rule Suc(1)[OF n])
    qed
  qed
qed

lemma seq_counts:
  "seq_loop env allFiles i st = Inr st' \<Longrightarrow>
   passed st = length (filter success (seq_results st)) \<Longrightarrow>
   failed st = length (filter (\<lambda>r. \<not> success r) (seq_results st)) \<Longrightarrow>
   passed st' = length (filter success (seq_results st')) \<and>
   failed st' = length (filter (\<lambda>r. \<not> success r) (seq_results st'))"
proof (induction i st rule: seq_loop_cases[where env = env and allFiles = allFiles])
  case (1 i st)
  then show ?case by simp
next
  case (2 i st e)
  then show ?case by (simp add: seq_loop_reject)
next
  case (3 i st r)
  then show ?case by (simp add: seq_loop_pass)
next
  case (4 i st r)
  then show ?case by (simp add: seq_loop_fail)
qed

lemma seq_all_resolved:
  "seq_loop env allFiles i st = Inr st' \<Longrightarrow> i \<le> j \<Longrightarrow> j < length allFiles \<Longrightarrow>
   \<exists>r. settle env (invoke env (allFiles ! j)) = Inr r"
proof (induction i st rule: seq_loop_cases[where env = env and allFiles = allFiles])
  case (1 i st)
  then show ?case by simp
next
  case (2 i st e)
  then show ?case by (simp add: seq_loop_reject)
next
  case (3 i st r)
  then show ?case by (cases "i = j") (simp_all add: seq_loop_pass)
next
  case (4 i st r)
  then show ?case by (cases "i = j") (simp_all add: seq_loop_fail)
qed

lemma seq_loop_resolving:
  assumes ok: "\<forall>f \<in> set allFiles. settle env (invoke env f) = Inr (run f)"
  shows "seq_loop env allFiles i st =
     Inr \<lparr>seq_results = seq_results st @ map run (drop i allFiles),
          passed = passed st + length (filter (\<lambda>f. success (run f)) (drop i allFiles)),
          failed = failed st + length (filter (\<lambda>f. \<not> success (run f)) (drop i allFiles)),
          seq_events = seq_events st @ concat (map (seq_round env allFiles run) [i..<length allFiles])\<rparr>"
proof (induction i st rule: seq_loop_cases[where env = env and allFiles = allFiles])
  case (1 i st)
  then show ?case by simp
next
  case (2 i st e)
  with ok show ?case by simp
next
  case (3 i st r)
  from 3(1,2) ok have r: "r = run (allFiles ! i)" by simp
  from 3(1) have d: "drop i allFiles = allFiles ! i # drop (Suc i) allFiles"
    by (simp add: Cons_nth_drop_Suc)
  from 3(1) have u: "[i..<length allFiles] = i # [Suc i..<length allFiles]"
    by (simp add: upt_conv_Cons)
  have rd: "seq_round env allFiles run i =
     [Announced i, Invoked i (invoke env (allFiles ! i)), Settled i, Pushed i,
      Reported i (success (run (allFiles ! i)))]" by (simp add: seq_round_def)
  show ?case using 3(3) unfolding seq_loop_pass[OF 3(1,2,3)] 3(4) d u
    by (simp add: r rd)
next
  case (4 i st r)
  from 4(1,2) ok have r: "r = run (allFiles ! i)" by simp
  from 4(1) have d: "drop i allFiles = allFiles ! i # drop (Suc i) allFiles"
    by (simp add: Cons_nth_drop_Suc)
  from 4(1) have u: "[i..<length allFiles] = i # [Suc i..<length allFiles]"
    by (simp add: upt_conv_Cons)
  have rd: "seq_round env allFiles run i =
     [Announced i, Invoked i (invoke env (allFiles ! i)), Settled i, Pushed i,
      Reported i (success (run (allFiles ! i)))]" by (simp add: seq_round_def)
  show ?case using 4(3) unfolding seq_loop_fail[OF 4(1,2,3)] 4(4) d u
    by (simp add: r rd)
qed

text \<open>
  What holds at the top of round \<open>i\<close> of the sequential loop: the results, the
  invocations and the report lines are those of the files before \<open>i\<close>, in order.
\<close>

definition seq_inv :: "'c common \<Rightarrow> string list \<Rightarrow> nat \<Rightarrow> 'c sstate \<Rightarrow> bool" where
  "seq_inv env allFiles i st \<longleftrightarrow>
     length (seq_results st) = i \<and>
     (\<forall>j < i. settle env (invoke env (allFiles ! j)) = Inr (seq_results st ! j)) \<and>
     invocations (seq_events st) = map (\<lambda>j. (j, invoke env (allFiles ! j))) [0..<i] \<and>
     map fst (reports (seq_events st)) = [0..<i]"

lemma seq_inv_init: "seq_inv env allFiles 0 seq_init"
  by (simp add: seq_inv_def seq_init_def)

lemma seq_inv_step:
  assumes "seq_inv env allFiles i st" "settle env (invoke env (allFiles ! i)) = Inr r"
    and "seq_results st' = seq_results st @ [r]"
    and "seq_events st' = seq_events st @
          [Announced i, Invoked i (invoke env (allFiles ! i)), Settled i, Pushed i, Reported i ok]"
  shows "seq_inv env allFiles (Suc i) st'"
  using assms by (auto simp: seq_inv_def nth_append less_Suc_eq)

lemma seq_loop_returns_inv:
  "seq_loop env allFiles i st = Inr st' \<Longrightarrow> seq_inv env allFiles i st \<Longrightarrow> i \<le> length allFiles \<Longrightarrow>
   seq_inv env allFiles (length allFiles) st'"
proof (induction i st rule: seq_loop_cases[where env = env and allFiles = allFiles])
  case (1 i st)
  then show ?case by simp
next
  case (2 i st e)
  then show ?case by (simp add: seq_loop_reject)
next
  case (3 i st r)
  from 3(5) have "seq_loop env allFiles (Suc i)
       (st\<lparr>seq_results := seq_results st @ [r], passed := Suc (passed st),
           seq_events := seq_events st @
             [Announced i, Invoked i (invoke env (allFiles ! i)), Settled i, Pushed i,
              Reported i True]\<rparr>) = Inr st'"
    by (simp add: seq_loop_pass[OF 3(1,2,3)])
  moreover have "seq_inv env allFiles (Suc i)
       (st\<lparr>seq_results := seq_results st @ [r], passed := Suc (passed st),
           seq_events := seq_events st @
             [Announced i, Invoked i (invoke env (allFiles ! i)), Settled i, Pushed i,
              Reported i True]\<rparr>)"
    by (rule seq_inv_step[where ok = True, OF 3(6) 3(2)]) simp_all
  ultimately show ?case using 3(1) by (intro 3(4)) simp_all
next
  case (4 i st r)
  from 4(5) have "seq_loop env allFiles (Suc i)
       (st\<lparr>seq_results := seq_results st @ [r], failed := Suc (failed st),
           seq_events := seq_events st @
             [Announced i, Invoked i (invoke env (allFiles ! i)), Settled i, Pushed i,
              Reported i False]\<rparr>) = Inr st'"
    by (simp add: seq_loop_fail[OF 4(1,2,3)])
  moreover have "seq_inv env allFiles (Suc i)
       (st\<lparr>seq_results := seq_results st @ [r], failed := Suc (failed st),
           seq_events := seq_events st @
             [Announced i, Invoked i (invoke env (allFiles ! i)), Settled i, Pushed i,
              Reported i False]\<rparr>)"
    by (rule seq_inv_step[where ok = False, OF 4(6) 4(2)]) simp_all
  ultimately show ?case using 4(1) by (intro 4(4)) simp_all
qed

lemma seq_loop_throws_inv:
  "seq_loop env allFiles i st = Inl (e, st') \<Longrightarrow> seq_inv env allFiles i st \<Longrightarrow>
   \<exists>k < length allFiles. settle env (invoke env (allFiles ! k)) = Inl e \<and>
     length (seq_results st') = k \<and>
     (\<forall>j < k. settle env (invoke env (allFiles ! j)) = Inr (seq_results st' ! j)) \<and>
     invocations (seq_events st') = map (\<lambda>j. (j, invoke env (allFiles ! j))) [0..<Suc k] \<and>
     map fst (reports (seq_events st')) = [0..<k]"
proof (induction i st rule: seq_loop_cases[where env = env and allFiles = allFiles])
  case (1 i st)
  then show ?case by simp
next
  case (2 i st e')
  from 2(3) have "e' = e"
    "st' = st\<lparr>seq_events := seq_events st @
                  [Announced i, Invoked i (invoke env (allFiles ! i)), Settled i]\<rparr>"
    by (simp_all add: seq_loop_reject[OF 2(1,2)])
  with 2(1,2,4) have "i < length allFiles \<and> settle env (invoke env (allFiles ! i)) = Inl e \<and>
     length (seq_results st') = i \<and>
     (\<forall>j < i. settle env (invoke env (allFiles ! j)) = Inr (seq_results st' ! j)) \<and>
     invocations (seq_events st') = map (\<lambda>j. (j, invoke env (allFiles ! j))) [0..<Suc i] \<and>
     map fst (reports (seq_events st')) = [0..<i]"
    by (simp add: seq_inv_def)
  then show ?case by blast
next
  case (3 i st r)
  from 3(5) have "seq_loop env allFiles (Suc i)
       (st\<lparr>seq_results := seq_results st @ [r], passed := Suc (passed st),
           seq_events := seq_events st @
             [Announced i, Invoked i (invoke env (allFiles ! i)), Settled i, Pushed i,
              Reported i True]\<rparr>) = Inl (e, st')"
    by (simp add: seq_loop_pass[OF 3(1,2,3)])
  moreover have "seq_inv env allFiles (Suc i)
       (st\<lparr>seq_results := seq_results st @ [r], passed := Suc (passed st),
           seq_events := seq_events st @
             [Announced i, Invoked i (invoke env (allFiles ! i)), Settled i, Pushed i,
              Reported i True]\<rparr>)"
    by (rule seq_inv_step[where ok = True, OF 3(6) 3(2)]) simp_all
  ultimately show ?case by (rule 3(4))
next
  case (4 i st r)
  from 4(5) have "seq_loop env allFiles (Suc i)
       (st\<lparr>seq_results := seq_results st @ [r], failed := Suc (failed st),
           seq_events := seq_events st @
             [Announced i, Invoked i (invoke env (allFiles ! i)), Settled i, Pushed i,
              Reported i False]\<rparr>) = Inl (e, st')"
    by (simp add: seq_loop_fail[OF 4(1,2,3)])
  moreover have "seq_inv env allFiles (Suc i)
       (st\<lparr>seq_results := seq_results st @ [r], failed := Suc (failed st),
           seq_events := seq_events st @
             [Announced i, Invoked i (invoke env (allFiles ! i)), Settled i, Pushed i,
              Reported i False]\<rparr>)"
    by (rule seq_inv_step[where ok = False, OF 4(6) 4(2)]) simp_all
  ultimately show ?case by (rule 4(4))
qed

subsection \<open>What a finished parallel run says\<close>

lemma invocations_rounds:
  "invocations (concat (map (seq_round env files run) js)) = map (\<lambda>j. (j, invoke env (files ! j))) js"
  by (induction js) (simp_all add: seq_round_def)

lemma reports_rounds:
  "reports (concat (map (seq_round env files run) js)) = map (\<lambda>j. (j, success (run (files ! j)))) js"
  by (induction js) (simp_all add: seq_round_def)

lemma within_rounds: "within 1 0 (concat (map (seq_round env files run) js))"
  by (induction js) (simp_all add: seq_round_def within_append)

lemma filter_array_Some [simp]: "filter_array p (map Some xs) = filter p xs"
  by (induction xs) (simp_all add: filter_array_def)

lemma filter_array_empty_iff:
  "(\<forall>s \<in> set slots. s \<noteq> None) \<Longrightarrow>
   filter_array p slots = [] \<longleftrightarrow> (\<forall>s \<in> set slots. \<exists>r. s = Some r \<and> \<not> p r)"
proof (induction slots)
  case Nil
  then show ?case by (simp add: filter_array_def)
next
  case (Cons s slots)
  then show ?case by (cases s) (auto simp: filter_array_def)
qed

lemma rejected_Some:
  assumes "rejected st = Some e"
  shows "\<exists>w < length (workers st). workers st ! w = Threw e"
proof -
  have "List.map_filter rejection ws = e # es \<Longrightarrow> Threw e \<in> set ws" for ws :: "'a wstate list" and es
  proof (induction ws)
    case Nil
    then show ?case by simp
  next
    case (Cons x ws)
    then show ?case by (cases x) auto
  qed
  with assms have "Threw e \<in> set (workers st)"
    by (auto simp: rejected_def split: list.splits)
  then show ?thesis by (simp add: in_set_conv_nth)
qed

text \<open>What a run that returns an array says about the runners, and what a run that
  rejects says.\<close>

lemma run_returns:
  assumes run: "runTestsWithConcurrency env files concurrency order = Inr slots"
    and k: "1 \<le> concurrency"
  shows "length slots = length files"
    and "i < length files \<Longrightarrow> \<exists>r. settle env (invoke env (files ! i)) = Inr r \<and> slots ! i = Some r"
proof -
  let ?st = "run_parallel env files concurrency order"
  from run have r: "rejected ?st = None" and s: "slots = results ?st"
    by (auto simp: runTestsWithConcurrency_def Let_def split: option.splits)
  note inv = pool_inv_run_parallel[of env files concurrency order]
  show "length slots = length files"
    using pool_invD(2)[OF inv] s by (simp add: slot_inv_def)
  show "\<exists>r. settle env (invoke env (files ! i)) = Inr r \<and> slots ! i = Some r" if "i < length files"
    using resolved_slot[OF inv settled_run_parallel r length_workers_run_parallel k that] s by simp
qed

lemma run_rejects:
  assumes run: "runTestsWithConcurrency env files concurrency order = Inl e"
  shows "\<exists>i < length files. settle env (invoke env (files ! i)) = Inl e"
proof -
  let ?st = "run_parallel env files concurrency order"
  from run have "rejected ?st = Some e"
    by (auto simp: runTestsWithConcurrency_def Let_def split: option.splits)
  from rejected_Some[OF this] obtain w where "w < length (workers ?st)" "workers ?st ! w = Threw e"
    by blast
  with reject_invD[OF pool_invD(5)[OF pool_inv_run_parallel]] show ?thesis by blast
qed

lemma run_returns_all_some:
  assumes "runTestsWithConcurrency env files concurrency order = Inr slots" "1 \<le> concurrency"
  shows "\<forall>s \<in> set slots. s \<noteq> None"
proof
  fix s assume "s \<in> set slots"
  then obtain i where "i < length slots" "slots ! i = s" by (auto simp: in_set_conv_nth)
  with run_returns[OF assms] show "s \<noteq> None" by auto
qed

text \<open>A report line is printed exactly with a store.\<close>

lemma spawn_reports:
  "map fst (reports (events (spawn env files st))) = map fst (reports (events st)) \<and>
   map snd (stores (events (spawn env files st))) = map snd (stores (events st))"
  by (simp add: spawn_def claim_def Let_def)

lemma spawn_loop_reports:
  "map fst (reports (events st)) = map snd (stores (events st)) \<Longrightarrow>
   map fst (reports (events (spawn_loop env files n st))) =
   map snd (stores (events (spawn_loop env files n st)))"
  by (induction n arbitrary: st) (simp_all add: spawn_reports)

lemma resume_reports:
  "map fst (reports (events st)) = map snd (stores (events st)) \<Longrightarrow>
   map fst (reports (events (resume env files w st))) =
   map snd (stores (events (resume env files w st)))"
  by (simp add: resume_def claim_def Let_def split: wstate.splits sum.splits)

lemma reachable_reports:
  "reachable env files concurrency st \<Longrightarrow>
   map fst (reports (events st)) = map snd (stores (events st))"
proof (induction rule: reachable.induct)
  case (launching n)
  show ?case unfolding launched_def by (rule spawn_loop_reports) (simp add: init_def)
next
  case (resuming st w)
  then show ?case by (simp add: resume_reports)
qed

text \<open>The slot, the stores and the reports of an example whose runner rejects.\<close>

lemma rejecting_slot_empty:
  assumes r: "reachable env files concurrency st" and i: "i < length files"
    and e: "settle env (invoke env (files ! i)) = Inl e"
  shows "results st ! i = None" "i \<notin> snd ` set (stores (events st))"
    "i \<notin> fst ` set (reports (events st))"
proof -
  note s = pool_invD(2)[OF reachable_pool_inv[OF r]]
  show ns: "i \<notin> snd ` set (stores (events st))"
  proof
    assume "i \<in> snd ` set (stores (events st))"
    from slot_inv_stored[OF s this] e show False by simp
  qed
  with s i show "results st ! i = None" by (simp add: slot_inv_def)
  from reachable_reports[OF r] have "fst ` set (reports (events st)) = snd ` set (stores (events st))"
    by (metis set_map)
  with ns show "i \<notin> fst ` set (reports (events st))" by simp
qed

text \<open>One resumption of a worker whose promise resolved.\<close>

lemma resume_resolved:
  assumes r: "reachable env files concurrency st" and ns: "\<not> settled st"
    and w: "w < length (workers st)" and a: "workers st ! w = Awaiting i c"
    and ok: "settle env c = Inr result"
  shows "results (resume env files w st) ! i = Some result \<and>
    rejected (resume env files w st) = None \<and>
    (w, nextIndex st) \<in> set (claims (events (resume env files w st))) \<and>
    (w, i) \<in> set (stores (events (resume env files w st)))"
proof -
  note inv = reachable_pool_inv[OF r]
  note f = awaiting_facts[OF pool_invD(3)[OF inv] w a]
  from pool_invD(2)[OF inv] f(1) have len: "i < length (results st)" by (simp add: slot_inv_def)
  from ns have rej: "rejected st = None" by (simp add: settled_def)
  show ?thesis
  proof (cases "nextIndex st < length files")
    case True
    note eq = resume_next[OF a ok True]
    have "rejected (resume env files w st) = None"
      by (rule rejected_update[where st = st and w = w
            and v = "Awaiting (nextIndex st) (invoke env (files ! nextIndex st))", OF _ rej])
         (simp_all add: eq)
    then show ?thesis using len by (simp add: eq)
  next
    case False
    then have F: "length files \<le> nextIndex st" by simp
    note eq = resume_last[OF a ok F]
    have "rejected (resume env files w st) = None"
      by (rule rejected_update[where st = st and w = w and v = Returned, OF _ rej])
         (simp_all add: eq)
    then show ?thesis using len by (simp add: eq)
  qed
qed

subsection \<open>A concrete run\<close>

text \<open>
  Three examples: \<^verbatim>\<open>a.ts\<close> passes after 100 ms, \<^verbatim>\<open>b.ts\<close> needs a companion server
  and fails after 50 ms, \<^verbatim>\<open>c.ts\<close> passes after 10 ms.
\<close>

definition demo_result :: "string \<Rightarrow> TestResult" where
  "demo_result file =
     (if file = ''b.ts'' then \<lparr>success = False, duration = 50, error = Some ''boom''\<rparr>
      else if file = ''a.ts'' then \<lparr>success = True, duration = 100, error = None\<rparr>
      else \<lparr>success = True, duration = 10, error = None\<rparr>)"

definition demo_env :: "string common" where
  "demo_env =
     \<lparr>getServerConfig = (\<lambda>file. if file = ''b.ts'' then Some ''server.ts'' else None),
      runServerExample = (\<lambda>file serverConfig. Inr (demo_result file)),
      runExample = (\<lambda>file. Inr (demo_result file))\<rparr>"

text \<open>The run in which \<^verbatim>\<open>b.ts\<close> completes first, then \<^verbatim>\<open>c.ts\<close>, then \<^verbatim>\<open>a.ts\<close>.\<close>

lemma demo_run_value:
  "run_parallel demo_env [''a.ts'', ''b.ts'', ''c.ts''] 2 [1, 1, 0] =
    \<lparr>results =
    [Some \<lparr>success = True, duration = 100, error = None\<rparr>,
     Some \<lparr>success = False, duration = 50, error = Some ''boom''\<rparr>,
     Some \<lparr>success = True, duration = 10, error = None\<rparr>],
    nextIndex = 5, workers = [Returned, Returned],
    events =
      [Claimed 0 0, Announced 0, Invoked 0 (RunExample ''a.ts''),
       Claimed 1 1, Announced 1,
       Invoked 1 (RunServerExample ''b.ts'' ''server.ts''), Settled 1,
       Stored 1 1, Reported 1 False, Claimed 1 2, Announced 2,
       Invoked 2 (RunExample ''c.ts''), Settled 2, Stored 1 2,
       Reported 2 True, Claimed 1 3, Settled 0, Stored 0 0, Reported 0 True,
       Claimed 0 4]\<rparr>"
  by code_simp


text \<open>An environment in which every example passes, and one in which the runner of
  \<^verbatim>\<open>a.ts\<close> rejects.\<close>

definition pass_env :: "string common" where
  "pass_env =
     \<lparr>getServerConfig = (\<lambda>file. None),
      runServerExample = (\<lambda>file serverConfig. Inr \<lparr>success = True, duration = 7, error = None\<rparr>),
      runExample = (\<lambda>file. Inr \<lparr>success = True, duration = 7, error = None\<rparr>)\<rparr>"

definition rejecting_env :: "string common" where
  "rejecting_env =
     \<lparr>getServerConfig = (\<lambda>file. None),
      runServerExample = (\<lambda>file serverConfig. Inr \<lparr>success = True, duration = 7, error = None\<rparr>),
      runExample = (\<lambda>file. if file = ''a.ts'' then Inl (Thrown ''spawn EAGAIN'')
                            else Inr \<lparr>success = True, duration = 7, error = None\<rparr>)\<rparr>"

text \<open>Their runs, evaluated.\<close>

lemma pass_seq_value:
  "seq_loop pass_env [''x.ts'', ''y.ts''] 0 seq_init =
     Inr \<lparr>seq_results =
        [\<lparr>success = True, duration = 7, error = None\<rparr>,
         \<lparr>success = True, duration = 7, error = None\<rparr>],
        passed = 2, failed = 0,
        seq_events =
          [Announced 0, Invoked 0 (RunExample ''x.ts''), Settled 0,
           Pushed 0, Reported 0 True, Announced 1,
           Invoked 1 (RunExample ''y.ts''), Settled 1, Pushed 1,
           Reported 1 True]\<rparr>"
  by code_simp

lemma pass_par_value:
  "runTestsWithConcurrency pass_env [''x.ts'', ''y.ts''] CONCURRENCY [] =
     Inr [Some \<lparr>success = True, duration = 7, error = None\<rparr>,
          Some \<lparr>success = True, duration = 7, error = None\<rparr>]"
  by code_simp

lemma demo_seq_value:
  "seq_loop demo_env [''a.ts'', ''b.ts'', ''c.ts''] 0 seq_init =
     Inr \<lparr>seq_results =
        [\<lparr>success = True, duration = 100, error = None\<rparr>,
         \<lparr>success = False, duration = 50, error = Some ''boom''\<rparr>,
         \<lparr>success = True, duration = 10, error = None\<rparr>],
        passed = 2, failed = 1,
        seq_events =
          [Announced 0, Invoked 0 (RunExample ''a.ts''), Settled 0,
           Pushed 0, Reported 0 True, Announced 1,
           Invoked 1 (RunServerExample ''b.ts'' ''server.ts''), Settled 1,
           Pushed 1, Reported 1 False, Announced 2,
           Invoked 2 (RunExample ''c.ts''), Settled 2, Pushed 2,
           Reported 2 True]\<rparr>"
  by code_simp

lemma demo_par_value:
  "runTestsWithConcurrency demo_env [''a.ts'', ''b.ts'', ''c.ts''] CONCURRENCY [4, 4, 0] =
     Inr [Some \<lparr>success = True, duration = 100, error = None\<rparr>,
      Some \<lparr>success = False, duration = 50, error = Some ''boom''\<rparr>,
      Some \<lparr>success = True, duration = 10, error = None\<rparr>]"
  by code_simp

section \<open>The process runners\<close>

text \<open>
  \<^verbatim>\<open>runExample\<close> and \<^verbatim>\<open>runServerExample\<close> are defined in
  \<^verbatim>\<open>scripts/validation-common.ts\<close>, which is not among the sources. The definitions of
  this section follow sections 4.3 and 4.4 of the specification instead.
\<close>

text \<open>
  Modelled from the spec: what the child process of an example and the companion
  server can do (sections 4.3, 4.4 and 7), and the process events of a run. These
  are the input and the trace of the two runners, whose file is missing.
  \<^item> \<open>Exits t status uncaught output\<close>: the child exits \<open>t\<close> ms after the spawn with the
    given status; \<open>uncaught\<close> says that it signalled an uncaught top-level error;
  \<^item> \<open>Hangs\<close>: the child never exits;
  \<^item> \<open>HarnessError t message\<close>: an exception inside the harness \<open>t\<close> ms after the spawn;
  \<^item> \<open>BecomesReady\<close>, \<open>ExitsEarly t status\<close>, \<open>ErrorsEarly t message\<close>: the server
    becomes ready, or exits or errors \<open>t\<close> ms after its spawn, before it is ready.
\<close>

datatype child =
    Exits nat int bool string
  | Hangs
  | HarnessError nat string

datatype server = BecomesReady | ExitsEarly nat int | ErrorsEarly nat string

datatype proc_event = ServerSpawned | ServerKilled | ClientSpawned | ClientExited | ClientKilled

text \<open>Modelled from the spec: the synthetic messages of a timeout (section 4.3) and
  of a server that fails to start (section 4.4); the file that defines them is
  missing.\<close>

definition timeout_message :: string where
  "timeout_message = ''timeout''"

definition startup_message :: string where
  "startup_message = ''server failed to start''"

definition timed_out :: "nat \<Rightarrow> TestResult" where
  "timed_out bound = \<lparr>success = False, duration = bound, error = Some timeout_message\<rparr>"

text \<open>
  Modelled from the spec: the body of \<^verbatim>\<open>runExample\<close>, which is missing, after section
  4.3. Success is a zero exit status with no uncaught error, the duration is the
  time from spawn to exit; when the bound is exceeded the child is killed, the
  result is a failure with the timeout message and the bound as duration; the
  child is released on every path.
\<close>

definition runExample_process :: "nat \<Rightarrow> child \<Rightarrow> TestResult \<times> proc_event list" where
  "runExample_process bound behaviour =
     (case behaviour of
        Exits t status uncaught output \<Rightarrow>
          if bound < t then (timed_out bound, [ClientSpawned, ClientKilled])
          else if status = 0 \<and> \<not> uncaught
               then (\<lparr>success = True, duration = t, error = None\<rparr>, [ClientSpawned, ClientExited])
               else (\<lparr>success = False, duration = t, error = Some output\<rparr>,
                     [ClientSpawned, ClientExited])
      | Hangs \<Rightarrow> (timed_out bound, [ClientSpawned, ClientKilled])
      | HarnessError t message \<Rightarrow>
          (\<lparr>success = False, duration = t, error = Some message\<rparr>, [ClientSpawned, ClientKilled]))"

text \<open>
  Modelled from the spec: the body of \<^verbatim>\<open>runServerExample\<close>, which is missing, after
  section 4.4. A server that becomes ready encloses the client run of section 4.3
  and is terminated after it; a server that exits or errors before it is ready
  goes directly to the teardown, and the result is a failure with the startup
  message.
\<close>

definition runServerExample_lifecycle ::
  "nat \<Rightarrow> server \<Rightarrow> child \<Rightarrow> TestResult \<times> proc_event list" where
  "runServerExample_lifecycle bound srv behaviour =
     (case srv of
        BecomesReady \<Rightarrow>
          (case runExample_process bound behaviour of
             (result, evs) \<Rightarrow> (result, [ServerSpawned] @ evs @ [ServerKilled]))
      | ExitsEarly t status \<Rightarrow>
          (\<lparr>success = False, duration = t, error = Some startup_message\<rparr>,
           [ServerSpawned, ServerKilled])
      | ErrorsEarly t message \<Rightarrow>
          (\<lparr>success = False, duration = t, error = Some startup_message\<rparr>,
           [ServerSpawned, ServerKilled]))"

text \<open>Modelled from the spec: the child exceeds the time bound of section 4.3.\<close>

fun exceeds :: "nat \<Rightarrow> child \<Rightarrow> bool" where
  "exceeds bound (Exits t status uncaught output) = (bound < t)"
| "exceeds bound Hangs = True"
| "exceeds bound (HarnessError t message) = False"

lemma client_events:
  "snd (runExample_process bound behaviour) = [ClientSpawned, ClientExited] \<or>
   snd (runExample_process bound behaviour) = [ClientSpawned, ClientKilled]"
  by (cases behaviour) (simp_all add: runExample_process_def)

section \<open>Properties\<close>

subsection \<open>Slot alignment\<close>


lemma resolved_results:
  assumes inv: "pool_inv env files st" and s: "settled st"
    and len: "length (workers st) = pool_size concurrency files" and k: "1 \<le> concurrency"
    and ok: "\<forall>f \<in> set files. settle env (invoke env f) = Inr (run f)"
  shows "rejected st = None" "results st = map (\<lambda>f. Some (run f)) files"
proof -
  from ok have "\<forall>i<length files. \<exists>r. settle env (invoke env (files ! i)) = Inr r" by simp
  with inv show r: "rejected st = None" by (rule no_rejection)
  show "results st = map (\<lambda>f. Some (run f)) files"
  proof (rule nth_equalityI)
    show "length (results st) = length (map (\<lambda>f. Some (run f)) files)"
      using pool_invD(2)[OF inv] by (simp add: slot_inv_def)
  next
    fix i assume "i < length (results st)"
    then have i: "i < length files" using pool_invD(2)[OF inv] by (simp add: slot_inv_def)
    from resolved_slot[OF inv s r len k i] ok i
    show "results st ! i = map (\<lambda>f. Some (run f)) files ! i" by auto
  qed
qed




subsection \<open>Claim order\<close>

lemma file_of_invoke [simp]: "file_of (invoke env file) = file"
  by (simp add: invoke_def split: option.splits)

lemma claim_cursor:
  "nextIndex (fst (claim env files w st)) = nextIndex st + 1 \<and>
   claims (events (fst (claim env files w st))) = claims (events st) @ [(w, nextIndex st)]"
  by (simp add: claim_def Let_def)

text \<open>
  Claim C10. In parallel mode the examples are started in discovery order. The
  cursor starts at 0; a claim reads it and adds exactly one in a single step of the
  worker (no suspension point lies between); in every state of a run the claimed
  indices, in the order of the claims, are \<open>0, 1, \<dots>, nextIndex - 1\<close>; and the \<open>j\<close>-th
  runner invocation over all workers (counted from 0 here) is for file \<open>j\<close> of the
  list.
\<close>

theorem started_in_discovery_order:
  assumes "reachable env files concurrency st"
  shows "nextIndex (init files :: 'c pstate) = 0 \<and>
     (\<forall>w (st0 :: 'c pstate).
        nextIndex (fst (claim env files w st0)) = nextIndex st0 + 1 \<and>
        claims (events (fst (claim env files w st0))) = claims (events st0) @ [(w, nextIndex st0)]) \<and>
     map snd (claims (events st)) = [0..<nextIndex st] \<and>
     length (invocations (events st)) = min (nextIndex st) (length files) \<and>
     (\<forall>j < length (invocations (events st)).
        fst (invocations (events st) ! j) = j \<and>
        file_of (snd (invocations (events st) ! j)) = files ! j)"
proof -
  from assms have "log_inv env files st"
    by (rule pool_invD(1)[OF reachable_pool_inv])
  then have c: "map snd (claims (events st)) = [0..<nextIndex st]"
    and i: "invocations (events st) =
       map (\<lambda>i. (i, invoke env (files ! i))) [0..<min (nextIndex st) (length files)]"
    by (simp_all add: log_inv_def)
  have 1: "nextIndex (init files :: 'c pstate) = 0" by (simp add: init_def)
  have 2: "length (invocations (events st)) = min (nextIndex st) (length files)"
    by (simp add: i)
  have 3: "\<forall>j < length (invocations (events st)).
        fst (invocations (events st) ! j) = j \<and>
        file_of (snd (invocations (events st) ! j)) = files ! j"
    by (simp add: i)
  from 1 2 3 c claim_cursor show ?thesis by blast
qed

theorem started_in_discovery_order_witness:
  "map snd (claims (events (run_parallel demo_env [''a.ts'', ''b.ts'', ''c.ts''] 2 [1, 1, 0]))) = [0, 1, 2, 3, 4] \<and>
   map (\<lambda>x. file_of (snd x)) (invocations (events (run_parallel demo_env [''a.ts'', ''b.ts'', ''c.ts''] 2 [1, 1, 0])))
     = [''a.ts'', ''b.ts'', ''c.ts'']"
  using started_in_discovery_order[OF
      reachable_run_parallel[of demo_env "[''a.ts'', ''b.ts'', ''c.ts'']" 2 "[1, 1, 0]"]]
  unfolding demo_run_value by simp

subsection \<open>The concurrency bound\<close>

lemma pool_size_le: "0 \<le> concurrency \<Longrightarrow> int (pool_size concurrency files) \<le> concurrency"
  by (simp add: pool_size_def)

text \<open>
  Claim C3. In every state of a run with limit \<open>K \<ge> 0\<close>, and after every prefix of
  its events, at most \<open>K\<close> runs are in flight. The runs in flight are those of the
  suspended workers, one each; the pool has at most \<open>min K N\<close> workers while it is
  launched and exactly \<open>min K N\<close> afterwards; and every invocation of a runner is
  for an index that a worker claimed.
\<close>

theorem bounded_in_flight:
  assumes r: "reachable env files concurrency st" and k: "0 \<le> concurrency"
  shows "(\<forall>n. in_flight (take n (events st)) \<le> concurrency) \<and>
     in_flight (events st) = int (length (suspended st)) \<and>
     length (suspended st) \<le> length (workers st) \<and>
     length (workers st) \<le> nat (min concurrency (int (length files))) \<and>
     length (workers (run_parallel env files concurrency order)) = nat (min concurrency (int (length files))) \<and>
     set (map fst (invocations (events st))) \<subseteq> set (map snd (claims (events st)))"
proof -
  from r have l: "log_inv env files st" by (rule pool_invD(1)[OF reachable_pool_inv])
  from reachable_workers[OF r] pool_size_le[OF k, of files]
  have wk: "int (length (workers st)) \<le> concurrency" by simp
  from l have "within (int (length (workers st))) 0 (events st)" by (simp add: log_inv_def)
  then have "within concurrency 0 (events st)" using wk by (rule within_mono)
  then have 1: "\<forall>n. in_flight (take n (events st)) \<le> concurrency"
    by (simp add: within_take_gen)
  from l have 2: "in_flight (events st) = int (length (suspended st))" by (simp add: log_inv_def)
  have 3: "length (suspended st) \<le> length (workers st)" by (rule suspended_le)
  from reachable_workers[OF r] have 4: "length (workers st) \<le> nat (min concurrency (int (length files)))"
    by (simp add: pool_size_def)
  have 5: "length (workers (run_parallel env files concurrency order)) = nat (min concurrency (int (length files)))"
    by (simp add: pool_size_def)
  from l have 6: "set (map fst (invocations (events st))) \<subseteq> set (map snd (claims (events st)))"
    by (auto simp: log_inv_def)
  from 1 2 3 4 5 6 show ?thesis by blast
qed

theorem bounded_in_flight_witness:
  "in_flight (take 12 (events (run_parallel demo_env [''a.ts'', ''b.ts'', ''c.ts''] 2 [1, 1, 0]))) = 2 \<and>
   in_flight (take 12 (events (run_parallel demo_env [''a.ts'', ''b.ts'', ''c.ts''] 2 [1, 1, 0]))) \<le> 2 \<and>
   length (workers (run_parallel demo_env [''a.ts'', ''b.ts'', ''c.ts''] 2 [1, 1, 0])) = 2"
  using bounded_in_flight[OF
      reachable_run_parallel[of demo_env "[''a.ts'', ''b.ts'', ''c.ts'']" 2 "[1, 1, 0]"],
      where order = "[1, 1, 0]"]
  unfolding demo_run_value by simp


subsection \<open>Exit status\<close>

text \<open>
  Claim C2. In both modes the exit status is 0 exactly when discovery returned a
  file list, the run produced its result collection, and every result in it has
  \<open>success = True\<close>. In every other case it is 1: when a result is a failure, and
  when discovery or a runner threw, so that \<^verbatim>\<open>main().catch\<close> ran.
\<close>

theorem exit_status:
  "(main_sequential env discovered = 0 \<longleftrightarrow>
      (\<exists>allFiles st. discovered = Inr allFiles \<and> seq_loop env allFiles 0 seq_init = Inr st \<and>
         (\<forall>r \<in> set (seq_results st). success r))) \<and>
   (main_sequential env discovered \<noteq> 0 \<longrightarrow> main_sequential env discovered = 1) \<and>
   (main_parallel env discovered order = 0 \<longleftrightarrow>
      (\<exists>allFiles slots. discovered = Inr allFiles \<and>
         runTestsWithConcurrency env allFiles CONCURRENCY order = Inr slots \<and>
         (\<forall>s \<in> set slots. \<exists>r. s = Some r \<and> success r))) \<and>
   (main_parallel env discovered order \<noteq> 0 \<longrightarrow> main_parallel env discovered order = 1)"
proof -
  have seq: "(failed st = 0) = (\<forall>r \<in> set (seq_results st). success r)"
    if "seq_loop env allFiles 0 seq_init = Inr st" for allFiles and st :: "'a sstate"
  proof -
    from seq_counts[OF that] have "failed st = length (filter (\<lambda>r. \<not> success r) (seq_results st))"
      by (simp add: seq_init_def)
    then show ?thesis by (simp add: filter_empty_conv)
  qed
  have 1: "main_sequential env discovered = 0 \<longleftrightarrow>
      (\<exists>allFiles st. discovered = Inr allFiles \<and> seq_loop env allFiles 0 seq_init = Inr st \<and>
         (\<forall>r \<in> set (seq_results st). success r))"
  proof (cases discovered)
    case (Inl e)
    then show ?thesis by (simp add: main_sequential_def)
  next
    case (Inr allFiles)
    show ?thesis
    proof (cases "seq_loop env allFiles 0 seq_init")
      case (Inl a)
      with Inr show ?thesis by (simp add: main_sequential_def)
    next
      case st: (Inr st)
      with Inr seq[OF st] show ?thesis by (auto simp: main_sequential_def)
    qed
  qed
  have 2: "main_sequential env discovered \<noteq> 0 \<longrightarrow> main_sequential env discovered = 1"
    by (simp add: main_sequential_def split: sum.splits)
  have par: "(filter_array (\<lambda>r. \<not> success r) slots = []) = (\<forall>s \<in> set slots. \<exists>r. s = Some r \<and> success r)"
    if "runTestsWithConcurrency env allFiles CONCURRENCY order = Inr slots" for allFiles slots
    using filter_array_empty_iff[OF run_returns_all_some[OF that], of "\<lambda>r. \<not> success r"]
    by (simp add: CONCURRENCY_def)
  have 3: "main_parallel env discovered order = 0 \<longleftrightarrow>
      (\<exists>allFiles slots. discovered = Inr allFiles \<and>
         runTestsWithConcurrency env allFiles CONCURRENCY order = Inr slots \<and>
         (\<forall>s \<in> set slots. \<exists>r. s = Some r \<and> success r))"
  proof (cases discovered)
    case (Inl e)
    then show ?thesis by (simp add: main_parallel_def)
  next
    case (Inr allFiles)
    show ?thesis
    proof (cases "runTestsWithConcurrency env allFiles CONCURRENCY order")
      case (Inl a)
      with Inr show ?thesis by (simp add: main_parallel_def)
    next
      case sl: (Inr slots)
      with Inr par[OF sl] show ?thesis by (auto simp: main_parallel_def Let_def)
    qed
  qed
  have 4: "main_parallel env discovered order \<noteq> 0 \<longrightarrow> main_parallel env discovered order = 1"
    by (simp add: main_parallel_def Let_def split: sum.splits)
  from 1 2 3 4 show ?thesis by blast
qed

theorem exit_status_witness:
  "main_sequential pass_env (Inr [''x.ts'', ''y.ts'']) = 0 \<and>
   main_parallel pass_env (Inr [''x.ts'', ''y.ts'']) [] = 0 \<and>
   main_sequential demo_env (Inr [''a.ts'', ''b.ts'', ''c.ts'']) = 1 \<and>
   main_parallel demo_env (Inr [''a.ts'', ''b.ts'', ''c.ts'']) [4, 4, 0] = 1 \<and>
   main_sequential demo_env (Inl (Thrown ''ENOENT'')) = 1 \<and>
   main_parallel demo_env (Inl (Thrown ''ENOENT'')) [] = 1"
proof -
  note a = exit_status[of pass_env "Inr [''x.ts'', ''y.ts'']" "[]"]
  note b = exit_status[of demo_env "Inr [''a.ts'', ''b.ts'', ''c.ts'']" "[4, 4, 0]"]
  note c = exit_status[of demo_env "Inl (Thrown ''ENOENT'')" "[]"]
  have "\<exists>allFiles st. Inr [''x.ts'', ''y.ts''] = (Inr allFiles :: thrown + string list) \<and>
      seq_loop pass_env allFiles 0 seq_init = Inr st \<and> (\<forall>r \<in> set (seq_results st). success r)"
    by (intro exI conjI, rule refl, rule pass_seq_value) simp
  with a have 1: "main_sequential pass_env (Inr [''x.ts'', ''y.ts'']) = 0" by blast
  have "\<exists>allFiles slots. Inr [''x.ts'', ''y.ts''] = (Inr allFiles :: thrown + string list) \<and>
      runTestsWithConcurrency pass_env allFiles CONCURRENCY [] = Inr slots \<and>
      (\<forall>s \<in> set slots. \<exists>r. s = Some r \<and> success r)"
    by (intro exI conjI, rule refl, rule pass_par_value) simp
  with a have 2: "main_parallel pass_env (Inr [''x.ts'', ''y.ts'']) [] = 0" by blast
  have "\<not> (\<exists>allFiles st. Inr [''a.ts'', ''b.ts'', ''c.ts''] = (Inr allFiles :: thrown + string list) \<and>
      seq_loop demo_env allFiles 0 seq_init = Inr st \<and> (\<forall>r \<in> set (seq_results st). success r))"
    by (auto simp: demo_seq_value)
  with b have 3: "main_sequential demo_env (Inr [''a.ts'', ''b.ts'', ''c.ts'']) = 1" by blast
  have "\<not> (\<exists>allFiles slots. Inr [''a.ts'', ''b.ts'', ''c.ts''] = (Inr allFiles :: thrown + string list) \<and>
      runTestsWithConcurrency demo_env allFiles CONCURRENCY [4, 4, 0] = Inr slots \<and>
      (\<forall>s \<in> set slots. \<exists>r. s = Some r \<and> success r))"
    by (auto simp: demo_par_value)
  with b have 4: "main_parallel demo_env (Inr [''a.ts'', ''b.ts'', ''c.ts'']) [4, 4, 0] = 1" by blast
  from c have 5: "main_sequential demo_env (Inl (Thrown ''ENOENT'')) = 1"
    "main_parallel demo_env (Inl (Thrown ''ENOENT'')) [] = 1" by auto
  from 1 2 3 4 5 show ?thesis by blast
qed

subsection \<open>The two modes agree\<close>

text \<open>
  Claim C7. When each run is a function from the file to its \<^verbatim>\<open>TestResult\<close>, the
  sequential results list and the slot array of the parallel mode are equal element
  for element, for every limit \<open>K \<ge> 1\<close> and every completion order; the counters
  \<^verbatim>\<open>passed\<close> and \<^verbatim>\<open>failed\<close> of the sequential loop are the numbers of passing and
  failing slots of the array, and the two \<^verbatim>\<open>main\<close> functions exit with the same status.
\<close>

theorem modes_agree:
  assumes k: "1 \<le> concurrency"
    and ok: "\<forall>f \<in> set files. settle env (invoke env f) = Inr (run f)"
  shows "\<exists>st slots. seq_loop env files 0 seq_init = Inr st \<and>
      runTestsWithConcurrency env files concurrency order = Inr slots \<and>
      length slots = length (seq_results st) \<and>
      (\<forall>i < length slots. slots ! i = Some (seq_results st ! i)) \<and>
      passed st = length (filter_array success slots) \<and>
      failed st = length (filter_array (\<lambda>r. \<not> success r) slots) \<and>
      main_sequential env (Inr files) = main_parallel env (Inr files) order"
proof -
  let ?st = "\<lparr>seq_results = map run files,
      passed = length (filter (\<lambda>f. success (run f)) files),
      failed = length (filter (\<lambda>f. \<not> success (run f)) files),
      seq_events = concat (map (seq_round env files run) [0..<length files])\<rparr> :: 'a sstate"
  let ?slots = "map (\<lambda>f. Some (run f)) files"
  have s: "seq_loop env files 0 seq_init = Inr ?st"
    by (simp add: seq_loop_resolving[OF ok] seq_init_def)
  have p: "runTestsWithConcurrency env files K order = Inr ?slots" if "1 \<le> K" for K
    using resolved_results[OF pool_inv_run_parallel settled_run_parallel
        length_workers_run_parallel that ok]
    by (simp add: runTestsWithConcurrency_def)
  have m: "?slots = map Some (map run files)" by simp
  have c1: "passed ?st = length (filter_array success ?slots)"
    unfolding m filter_array_Some by (simp add: filter_map comp_def)
  have c2: "failed ?st = length (filter_array (\<lambda>r. \<not> success r) ?slots)"
    unfolding m filter_array_Some by (simp add: filter_map comp_def)
  have e: "main_sequential env (Inr files) = main_parallel env (Inr files) order"
    using c2 by (simp add: main_sequential_def main_parallel_def s p CONCURRENCY_def Let_def)
  have "length ?slots = length (seq_results ?st) \<and>
      (\<forall>i < length ?slots. ?slots ! i = Some (seq_results ?st ! i))" by simp
  with s p[OF k] c1 c2 e show ?thesis by blast
qed

theorem modes_agree_witness:
  "seq_loop demo_env [''a.ts'', ''b.ts'', ''c.ts''] 0 seq_init =
     Inr \<lparr>seq_results =
        [\<lparr>success = True, duration = 100, error = None\<rparr>,
         \<lparr>success = False, duration = 50, error = Some ''boom''\<rparr>,
         \<lparr>success = True, duration = 10, error = None\<rparr>],
        passed = 2, failed = 1,
        seq_events =
          [Announced 0, Invoked 0 (RunExample ''a.ts''), Settled 0,
           Pushed 0, Reported 0 True, Announced 1,
           Invoked 1 (RunServerExample ''b.ts'' ''server.ts''), Settled 1,
           Pushed 1, Reported 1 False, Announced 2,
           Invoked 2 (RunExample ''c.ts''), Settled 2, Pushed 2,
           Reported 2 True]\<rparr> \<and>
   runTestsWithConcurrency demo_env [''a.ts'', ''b.ts'', ''c.ts''] 2 [4, 4, 0] =
     Inr [Some \<lparr>success = True, duration = 100, error = None\<rparr>,
          Some \<lparr>success = False, duration = 50, error = Some ''boom''\<rparr>,
          Some \<lparr>success = True, duration = 10, error = None\<rparr>] \<and>
   main_sequential demo_env (Inr [''a.ts'', ''b.ts'', ''c.ts'']) =
     main_parallel demo_env (Inr [''a.ts'', ''b.ts'', ''c.ts'']) [4, 4, 0]"
proof -
  have ok: "\<forall>f \<in> set [''a.ts'', ''b.ts'', ''c.ts'']. settle demo_env (invoke demo_env f) = Inr (demo_result f)"
    by (simp add: demo_env_def invoke_def)
  have k: "(1::int) \<le> 2" by simp
  from modes_agree[OF k ok, of "[4, 4, 0]"]
  obtain st slots where
    "seq_loop demo_env [''a.ts'', ''b.ts'', ''c.ts''] 0 seq_init = Inr st"
    "runTestsWithConcurrency demo_env [''a.ts'', ''b.ts'', ''c.ts''] 2 [4, 4, 0] = Inr slots"
    "length slots = length (seq_results st)"
    "\<forall>i < length slots. slots ! i = Some (seq_results st ! i)"
    "main_sequential demo_env (Inr [''a.ts'', ''b.ts'', ''c.ts'']) =
       main_parallel demo_env (Inr [''a.ts'', ''b.ts'', ''c.ts'']) [4, 4, 0]"
    by blast
  moreover from this(1) have "st = \<lparr>seq_results =
        [\<lparr>success = True, duration = 100, error = None\<rparr>,
         \<lparr>success = False, duration = 50, error = Some ''boom''\<rparr>,
         \<lparr>success = True, duration = 10, error = None\<rparr>],
        passed = 2, failed = 1,
        seq_events =
          [Announced 0, Invoked 0 (RunExample ''a.ts''), Settled 0,
           Pushed 0, Reported 0 True, Announced 1,
           Invoked 1 (RunServerExample ''b.ts'' ''server.ts''), Settled 1,
           Pushed 1, Reported 1 False, Announced 2,
           Invoked 2 (RunExample ''c.ts''), Settled 2, Pushed 2,
           Reported 2 True]\<rparr>"
    by (simp add: demo_seq_value)
  moreover have "slots = [Some \<lparr>success = True, duration = 100, error = None\<rparr>,
          Some \<lparr>success = False, duration = 50, error = Some ''boom''\<rparr>,
          Some \<lparr>success = True, duration = 10, error = None\<rparr>]"
    using calculation(3,4,6) by (simp add: list_eq_iff_nth_eq less_Suc_eq numeral_3_eq_3)
  ultimately show ?thesis by simp
qed


subsection \<open>Dispatch\<close>

text \<open>
  Claim C8 says that for every discovered example exactly one runner is invoked.
  With limit 1, when the runner of \<^verbatim>\<open>a.ts\<close> rejects, the run is over after the
  invocation for \<^verbatim>\<open>a.ts\<close>, in parallel mode and in the sequential loop: no runner
  is ever invoked for the discovered example \<^verbatim>\<open>b.ts\<close>.
\<close>

theorem every_example_invoked_counterexample:
  "settle rejecting_env (invoke rejecting_env ''a.ts'') = Inl (Thrown ''spawn EAGAIN'') \<and>
   settled (run_parallel rejecting_env [''a.ts'', ''b.ts''] 1 []) \<and>
   invocations (events (run_parallel rejecting_env [''a.ts'', ''b.ts''] 1 [])) =
     [(0, RunExample ''a.ts'')] \<and>
   seq_loop rejecting_env [''a.ts'', ''b.ts''] 0 seq_init =
     Inl (Thrown ''spawn EAGAIN'',
          \<lparr>seq_results = [], passed = 0, failed = 0,
           seq_events = [Announced 0, Invoked 0 (RunExample ''a.ts''), Settled 0]\<rparr>)"
  by code_simp

text \<open>
  Claim C8, amended. For every discovered example at most one runner is invoked,
  in discovery order, and it is \<^verbatim>\<open>runServerExample(file, config)\<close> when
  \<^verbatim>\<open>getServerConfig(file)\<close> is a config and \<^verbatim>\<open>runExample(file)\<close> when it is \<^verbatim>\<open>null\<close>,
  by the same rule in both modes: in every state of a parallel run the invocations
  are those of the files below the cursor, and at the end of the sequential loop
  they are those of all files, or of the files up to the first one whose runner
  rejected. Exactly one runner is invoked for every discovered example in every
  run that ends without a rejected runner promise: whenever
  \<^verbatim>\<open>runTestsWithConcurrency\<close> (limit \<open>K \<ge> 1\<close>) returns its array, whenever the
  sequential loop runs to its end, and so in both modes when every runner promise
  resolves.
\<close>

theorem at_most_one_runner_per_example:
  "(\<forall>st. reachable env files concurrency st \<longrightarrow>
      invocations (events st) =
        map (\<lambda>i. (i, case getServerConfig env (files ! i) of
                         Some cfg \<Rightarrow> RunServerExample (files ! i) cfg
                       | None \<Rightarrow> RunExample (files ! i)))
          [0..<min (nextIndex st) (length files)]) \<and>
   (\<forall>slots. 1 \<le> concurrency \<and> runTestsWithConcurrency env files concurrency order = Inr slots \<longrightarrow>
      invocations (events (run_parallel env files concurrency order)) =
        map (\<lambda>i. (i, case getServerConfig env (files ! i) of
                         Some cfg \<Rightarrow> RunServerExample (files ! i) cfg
                       | None \<Rightarrow> RunExample (files ! i)))
          [0..<length files]) \<and>
   (\<forall>st. seq_loop env files 0 seq_init = Inr st \<longrightarrow>
      invocations (seq_events st) =
        map (\<lambda>i. (i, case getServerConfig env (files ! i) of
                         Some cfg \<Rightarrow> RunServerExample (files ! i) cfg
                       | None \<Rightarrow> RunExample (files ! i)))
          [0..<length files]) \<and>
   (\<forall>e st. seq_loop env files 0 seq_init = Inl (e, st) \<longrightarrow>
      (\<exists>k < length files. settle env (invoke env (files ! k)) = Inl e \<and>
         invocations (seq_events st) =
           map (\<lambda>i. (i, case getServerConfig env (files ! i) of
                            Some cfg \<Rightarrow> RunServerExample (files ! i) cfg
                          | None \<Rightarrow> RunExample (files ! i)))
             [0..<Suc k])) \<and>
   (1 \<le> concurrency \<and> (\<forall>f \<in> set files. \<exists>r. settle env (invoke env f) = Inr r) \<longrightarrow>
      (\<exists>slots. runTestsWithConcurrency env files concurrency order = Inr slots) \<and>
      (\<exists>st. seq_loop env files 0 seq_init = Inr st)) \<and>
   (\<forall>file cfg. settle env (RunServerExample file cfg) = runServerExample env file cfg) \<and>
   (\<forall>file. settle env (RunExample file) = runExample env file)"
proof -
  let ?d = "\<lambda>i. (i, case getServerConfig env (files ! i) of
                         Some cfg \<Rightarrow> RunServerExample (files ! i) cfg
                       | None \<Rightarrow> RunExample (files ! i))"
  have d: "(\<lambda>i. (i, invoke env (files ! i))) = ?d" by (simp add: invoke_def)
  have g: "invocations (events st) = map ?d [0..<min (nextIndex st) (length files)]"
    if "reachable env files concurrency st" for st
    using pool_invD(1)[OF reachable_pool_inv[OF that]] unfolding log_inv_def d by simp
  have 1: "\<forall>st. reachable env files concurrency st \<longrightarrow>
      invocations (events st) = map ?d [0..<min (nextIndex st) (length files)]"
    using g by blast
  have 2: "invocations (events (run_parallel env files concurrency order)) = map ?d [0..<length files]"
    if k: "1 \<le> concurrency" and run: "runTestsWithConcurrency env files concurrency order = Inr slots"
    for slots
  proof -
    let ?st = "run_parallel env files concurrency order"
    from run have r: "rejected ?st = None"
      by (auto simp: runTestsWithConcurrency_def Let_def split: option.splits)
    have "length files \<le> nextIndex ?st"
      by (rule resolved_cursor[OF pool_inv_run_parallel settled_run_parallel r
            length_workers_run_parallel k])
    with g[OF reachable_run_parallel, of order] show ?thesis by (simp add: min_def)
  qed
  have 3: "invocations (seq_events st) = map ?d [0..<length files]"
    if "seq_loop env files 0 seq_init = Inr st" for st
    using seq_loop_returns_inv[OF that seq_inv_init] unfolding seq_inv_def d by simp
  have 4: "\<exists>k < length files. settle env (invoke env (files ! k)) = Inl e \<and>
         invocations (seq_events st) = map ?d [0..<Suc k]"
    if "seq_loop env files 0 seq_init = Inl (e, st)" for e st
    using seq_loop_throws_inv[OF that seq_inv_init] unfolding d by blast
  have 5: "(\<exists>slots. runTestsWithConcurrency env files concurrency order = Inr slots) \<and>
      (\<exists>st. seq_loop env files 0 seq_init = Inr st)"
    if k: "1 \<le> concurrency" and ok: "\<forall>f \<in> set files. \<exists>r. settle env (invoke env f) = Inr r"
  proof -
    from bchoice[OF ok] obtain run where run: "\<forall>f \<in> set files. settle env (invoke env f) = Inr (run f)"
      by blast
    from resolved_results[OF pool_inv_run_parallel settled_run_parallel
        length_workers_run_parallel k run, of order]
    have "runTestsWithConcurrency env files concurrency order = Inr (map (\<lambda>f. Some (run f)) files)"
      by (simp add: runTestsWithConcurrency_def)
    moreover have "\<exists>st. seq_loop env files 0 seq_init = Inr st"
      by (simp add: seq_loop_resolving[OF run])
    ultimately show ?thesis by blast
  qed
  have 6: "\<forall>file cfg. settle env (RunServerExample file cfg) = runServerExample env file cfg"
    "\<forall>file. settle env (RunExample file) = runExample env file" by simp_all
  from 1 2 3 4 5 6 show ?thesis by blast
qed

theorem at_most_one_runner_per_example_witness:
  "invocations (events (run_parallel demo_env [''a.ts'', ''b.ts'', ''c.ts''] 2 [4, 4, 0])) =
     [(0, RunExample ''a.ts''), (1, RunServerExample ''b.ts'' ''server.ts''), (2, RunExample ''c.ts'')] \<and>
   (\<exists>st. seq_loop demo_env [''a.ts'', ''b.ts'', ''c.ts''] 0 seq_init = Inr st \<and>
     invocations (seq_events st) =
     [(0, RunExample ''a.ts''), (1, RunServerExample ''b.ts'' ''server.ts''), (2, RunExample ''c.ts'')]) \<and>
   (\<exists>e st. seq_loop rejecting_env [''a.ts'', ''b.ts''] 0 seq_init = Inl (e, st) \<and>
     invocations (seq_events st) = [(0, RunExample ''a.ts'')])"
proof -
  note t = at_most_one_runner_per_example[of demo_env "[''a.ts'', ''b.ts'', ''c.ts'']" 2 "[4, 4, 0]"]
  note t' = at_most_one_runner_per_example[of rejecting_env "[''a.ts'', ''b.ts'']" 1 "[]"]
  have ok: "\<forall>f \<in> set [''a.ts'', ''b.ts'', ''c.ts'']. \<exists>r. settle demo_env (invoke demo_env f) = Inr r"
    by (simp add: demo_env_def invoke_def)
  have k: "(1::int) \<le> 2" by simp
  have u: "[0..<length [''a.ts'', ''b.ts'', ''c.ts'']] = [0, 1, 2]" by (simp add: upt_rec)
  have g: "getServerConfig demo_env ''a.ts'' = None"
    "getServerConfig demo_env ''b.ts'' = Some ''server.ts''"
    "getServerConfig demo_env ''c.ts'' = None" by (simp_all add: demo_env_def)
  from t k ok obtain slots st where
    r: "runTestsWithConcurrency demo_env [''a.ts'', ''b.ts'', ''c.ts''] 2 [4, 4, 0] = Inr slots"
    and s: "seq_loop demo_env [''a.ts'', ''b.ts'', ''c.ts''] 0 seq_init = Inr st"
    by blast
  from t k r have "invocations (events (run_parallel demo_env [''a.ts'', ''b.ts'', ''c.ts''] 2 [4, 4, 0])) =
        map (\<lambda>i. (i, case getServerConfig demo_env ([''a.ts'', ''b.ts'', ''c.ts''] ! i) of
                         Some cfg \<Rightarrow> RunServerExample ([''a.ts'', ''b.ts'', ''c.ts''] ! i) cfg
                       | None \<Rightarrow> RunExample ([''a.ts'', ''b.ts'', ''c.ts''] ! i)))
          [0..<length [''a.ts'', ''b.ts'', ''c.ts'']]"
    by blast
  then have 1: "invocations (events (run_parallel demo_env [''a.ts'', ''b.ts'', ''c.ts''] 2 [4, 4, 0])) =
     [(0, RunExample ''a.ts''), (1, RunServerExample ''b.ts'' ''server.ts''), (2, RunExample ''c.ts'')]"
    unfolding u by (simp add: g)
  from t s have "invocations (seq_events st) =
        map (\<lambda>i. (i, case getServerConfig demo_env ([''a.ts'', ''b.ts'', ''c.ts''] ! i) of
                         Some cfg \<Rightarrow> RunServerExample ([''a.ts'', ''b.ts'', ''c.ts''] ! i) cfg
                       | None \<Rightarrow> RunExample ([''a.ts'', ''b.ts'', ''c.ts''] ! i)))
          [0..<length [''a.ts'', ''b.ts'', ''c.ts'']]"
    by blast
  then have "invocations (seq_events st) =
     [(0, RunExample ''a.ts''), (1, RunServerExample ''b.ts'' ''server.ts''), (2, RunExample ''c.ts'')]"
    unfolding u by (simp add: g)
  with s have 2: "\<exists>st. seq_loop demo_env [''a.ts'', ''b.ts'', ''c.ts''] 0 seq_init = Inr st \<and>
     invocations (seq_events st) =
     [(0, RunExample ''a.ts''), (1, RunServerExample ''b.ts'' ''server.ts''), (2, RunExample ''c.ts'')]"
    by blast
  have b: "settle rejecting_env (invoke rejecting_env ''b.ts'') =
      Inr \<lparr>success = True, duration = 7, error = None\<rparr>"
    and g': "getServerConfig rejecting_env ''a.ts'' = None"
    by (simp_all add: rejecting_env_def invoke_def)
  have "seq_loop rejecting_env [''a.ts'', ''b.ts''] 0 seq_init =
     Inl (Thrown ''spawn EAGAIN'',
          \<lparr>seq_results = [], passed = 0, failed = 0,
           seq_events = [Announced 0, Invoked 0 (RunExample ''a.ts''), Settled 0]\<rparr>)"
    by code_simp
  then obtain e st' where s': "seq_loop rejecting_env [''a.ts'', ''b.ts''] 0 seq_init = Inl (e, st')"
    by blast
  with t' obtain k' where k': "k' < length [''a.ts'', ''b.ts'']"
    "settle rejecting_env (invoke rejecting_env ([''a.ts'', ''b.ts''] ! k')) = Inl e"
    "invocations (seq_events st') =
           map (\<lambda>i. (i, case getServerConfig rejecting_env ([''a.ts'', ''b.ts''] ! i) of
                            Some cfg \<Rightarrow> RunServerExample ([''a.ts'', ''b.ts''] ! i) cfg
                          | None \<Rightarrow> RunExample ([''a.ts'', ''b.ts''] ! i)))
             [0..<Suc k']"
    by blast
  from k'(1,2) b have "k' = 0" by (cases k') auto
  with k'(3) have "invocations (seq_events st') = [(0, RunExample ''a.ts'')]"
    by (simp add: g')
  with s' have 3: "\<exists>e st. seq_loop rejecting_env [''a.ts'', ''b.ts''] 0 seq_init = Inl (e, st) \<and>
     invocations (seq_events st) = [(0, RunExample ''a.ts'')]" by blast
  from 1 2 3 show ?thesis by blast
qed

subsection \<open>Sequential order\<close>

text \<open>
  Claim C9. In sequential mode, when every run produces a result, the log is the
  concatenation over the discovered files, in discovery order, of: announce,
  invoke, settle, push, report. So the promise of example \<open>i\<close> has settled before
  the runner of example \<open>i + 1\<close> is invoked, never more than one run is in flight,
  and the report lines and the results list are in discovery order.
\<close>

theorem sequential_order:
  assumes ok: "\<forall>f \<in> set files. settle env (invoke env f) = Inr (run f)"
  shows "\<exists>st. seq_loop env files 0 seq_init = Inr st \<and>
      seq_events st =
        concat (map (\<lambda>i. [Announced i, Invoked i (invoke env (files ! i)), Settled i, Pushed i,
                           Reported i (success (run (files ! i)))]) [0..<length files]) \<and>
      seq_results st = map run files \<and>
      reports (seq_events st) = map (\<lambda>i. (i, success (run (files ! i)))) [0..<length files] \<and>
      (\<forall>n. in_flight (take n (seq_events st)) \<le> 1)"
proof -
  have r: "seq_round env files run =
     (\<lambda>i. [Announced i, Invoked i (invoke env (files ! i)), Settled i, Pushed i,
            Reported i (success (run (files ! i)))])"
    by (rule ext) (simp add: seq_round_def)
  let ?evs = "concat (map (seq_round env files run) [0..<length files])"
  have w: "\<forall>n. in_flight (take n ?evs) \<le> 1"
    using within_rounds[of env files run "[0..<length files]"] by (simp add: within_take_gen)
  show ?thesis
    unfolding seq_loop_resolving[OF ok] r[symmetric]
    using w by (simp add: seq_init_def reports_rounds)
qed

theorem sequential_order_witness:
  "\<exists>st. seq_loop demo_env [''a.ts'', ''b.ts'', ''c.ts''] 0 seq_init = Inr st \<and>
     seq_events st =
       [Announced 0, Invoked 0 (RunExample ''a.ts''), Settled 0, Pushed 0, Reported 0 True,
        Announced 1, Invoked 1 (RunServerExample ''b.ts'' ''server.ts''), Settled 1, Pushed 1,
        Reported 1 False,
        Announced 2, Invoked 2 (RunExample ''c.ts''), Settled 2, Pushed 2, Reported 2 True] \<and>
     reports (seq_events st) = [(0, True), (1, False), (2, True)]"
proof -
  have ok: "\<forall>f \<in> set [''a.ts'', ''b.ts'', ''c.ts'']. settle demo_env (invoke demo_env f) = Inr (demo_result f)"
    by (simp add: demo_env_def invoke_def)
  have u: "[0..<length [''a.ts'', ''b.ts'', ''c.ts'']] = [0, 1, 2]" by (simp add: upt_rec)
  have i: "invoke demo_env ''a.ts'' = RunExample ''a.ts''"
    "invoke demo_env ''b.ts'' = RunServerExample ''b.ts'' ''server.ts''"
    "invoke demo_env ''c.ts'' = RunExample ''c.ts''" by (simp_all add: demo_env_def invoke_def)
  have s: "success (demo_result ''a.ts'')" "\<not> success (demo_result ''b.ts'')"
    "success (demo_result ''c.ts'')" by (simp_all add: demo_result_def)
  from sequential_order[OF ok] show ?thesis
    unfolding u by (auto simp: i s)
qed

subsection \<open>A rejected runner promise\<close>

text \<open>
  Claim C4 says that an error raised by a run is caught at the worker boundary and
  turned into a failed result while the scheduler goes on. The worker has no
  \<^verbatim>\<open>try\<close>: with limit 1, when the runner of \<^verbatim>\<open>a.ts\<close> rejects, the function rejects
  with that error, no slot is filled, \<^verbatim>\<open>b.ts\<close> is never invoked, and both modes exit
  with status 1 through \<^verbatim>\<open>main().catch\<close>.
\<close>

theorem worker_catches_counterexample:
  "settle rejecting_env (invoke rejecting_env ''a.ts'') = Inl (Thrown ''spawn EAGAIN'') \<and>
   runTestsWithConcurrency rejecting_env [''a.ts'', ''b.ts''] 1 [] = Inl (Thrown ''spawn EAGAIN'') \<and>
   results (run_parallel rejecting_env [''a.ts'', ''b.ts''] 1 []) = [None, None] \<and>
   invocations (events (run_parallel rejecting_env [''a.ts'', ''b.ts''] 1 [])) = [(0, RunExample ''a.ts'')] \<and>
   main_parallel rejecting_env (Inr [''a.ts'', ''b.ts'']) [] = 1 \<and>
   main_sequential rejecting_env (Inr [''a.ts'', ''b.ts'']) = 1"
  by code_simp

text \<open>
  Claim C4, amended. The worker has no catch of its own. A run whose runner promise
  resolves, with a passed or a failed \<^verbatim>\<open>TestResult\<close>, does not stop the scheduler:
  on resumption the result is written to the slot of its example, no rejection
  arises and the worker claims the next index; when every runner promise resolves,
  the run (\<open>K \<ge> 1\<close>) returns the complete array, every slot filled with the result
  of its example, and both modes reach their final report. When the runner promise
  of an example rejects, no \<^verbatim>\<open>TestResult\<close> is produced for it: in every state of the
  run its slot is empty and nothing is stored or reported for it. Then
  \<^verbatim>\<open>runTestsWithConcurrency\<close> rejects with the error of a rejected runner; the
  sequential loop is left at the first rejecting example, with the results and
  report lines of the examples before it only; and in both modes \<^verbatim>\<open>main\<close> exits with
  status 1 through its catch handler, without reaching the final report.
\<close>

theorem rejection_propagates:
  assumes k: "1 \<le> concurrency"
  shows "(\<forall>st w i c r. reachable env files concurrency st \<and> \<not> settled st \<and>
        w < length (workers st) \<and> workers st ! w = Awaiting i c \<and> settle env c = Inr r \<longrightarrow>
        results (resume env files w st) ! i = Some r \<and>
        rejected (resume env files w st) = None \<and>
        (w, nextIndex st) \<in> set (claims (events (resume env files w st)))) \<and>
     ((\<forall>f \<in> set files. \<exists>r. settle env (invoke env f) = Inr r) \<longrightarrow>
      (\<exists>slots. runTestsWithConcurrency env files concurrency order = Inr slots \<and>
         length slots = length files \<and>
         (\<forall>i < length files. \<exists>r. settle env (invoke env (files ! i)) = Inr r \<and> slots ! i = Some r) \<and>
         final_report_parallel env (Inr files) order \<noteq> None \<and>
         final_report_sequential env (Inr files) \<noteq> None)) \<and>
     (\<forall>st i e. reachable env files concurrency st \<and> i < length files \<and>
        settle env (invoke env (files ! i)) = Inl e \<longrightarrow>
        results st ! i = None \<and> i \<notin> snd ` set (stores (events st)) \<and>
        i \<notin> fst ` set (reports (events st))) \<and>
     ((\<exists>f \<in> set files. \<exists>e. settle env (invoke env f) = Inl e) \<longrightarrow>
      (\<exists>f \<in> set files. \<exists>e. settle env (invoke env f) = Inl e \<and>
         runTestsWithConcurrency env files concurrency order = Inl e) \<and>
      final_report_parallel env (Inr files) order = None \<and>
      main_parallel env (Inr files) order = 1 \<and>
      (\<exists>e st k. seq_loop env files 0 seq_init = Inl (e, st) \<and> k < length files \<and>
         settle env (invoke env (files ! k)) = Inl e \<and>
         length (seq_results st) = k \<and>
         (\<forall>j < k. settle env (invoke env (files ! j)) = Inr (seq_results st ! j)) \<and>
         map fst (reports (seq_events st)) = [0..<k]) \<and>
      final_report_sequential env (Inr files) = None \<and>
      main_sequential env (Inr files) = 1)"
proof (intro conjI impI allI)
  fix st w i c r
  assume a: "reachable env files concurrency st \<and> \<not> settled st \<and>
        w < length (workers st) \<and> workers st ! w = Awaiting i c \<and> settle env c = Inr r"
  from resume_resolved[of env files concurrency st w i c r] a
  show "results (resume env files w st) ! i = Some r"
    "rejected (resume env files w st) = None"
    "(w, nextIndex st) \<in> set (claims (events (resume env files w st)))"
    by blast+
next
  assume ok: "\<forall>f \<in> set files. \<exists>r. settle env (invoke env f) = Inr r"
  from bchoice[OF ok] obtain run where run: "\<forall>f \<in> set files. settle env (invoke env f) = Inr (run f)"
    by blast
  have p: "runTestsWithConcurrency env files K order = Inr (map (\<lambda>f. Some (run f)) files)"
    if "1 \<le> K" for K
    using resolved_results[OF pool_inv_run_parallel settled_run_parallel
      length_workers_run_parallel that run, of order]
    by (simp add: runTestsWithConcurrency_def)
  have "\<forall>i < length files. \<exists>r. settle env (invoke env (files ! i)) = Inr r \<and>
      map (\<lambda>f. Some (run f)) files ! i = Some r"
    using run by simp
  moreover have "final_report_parallel env (Inr files) order \<noteq> None"
    by (simp add: final_report_parallel_def p CONCURRENCY_def)
  moreover have "final_report_sequential env (Inr files) \<noteq> None"
    by (simp add: final_report_sequential_def seq_loop_resolving[OF run])
  ultimately show "\<exists>slots. runTestsWithConcurrency env files concurrency order = Inr slots \<and>
         length slots = length files \<and>
         (\<forall>i < length files. \<exists>r. settle env (invoke env (files ! i)) = Inr r \<and> slots ! i = Some r) \<and>
         final_report_parallel env (Inr files) order \<noteq> None \<and>
         final_report_sequential env (Inr files) \<noteq> None"
    using p[OF k] by simp
next
  fix st i e
  assume a: "reachable env files concurrency st \<and> i < length files \<and>
        settle env (invoke env (files ! i)) = Inl e"
  from rejecting_slot_empty[of env files concurrency st i e] a
  show "results st ! i = None" "i \<notin> snd ` set (stores (events st))"
    "i \<notin> fst ` set (reports (events st))"
    by blast+
next
  assume "\<exists>f \<in> set files. \<exists>e. settle env (invoke env f) = Inl e"
  then obtain i e where i: "i < length files" "settle env (invoke env (files ! i)) = Inl e"
    by (auto simp: in_set_conv_nth)
  have rej: "\<exists>e'. runTestsWithConcurrency env files K order = Inl e'" if "1 \<le> K" for K
  proof (cases "runTestsWithConcurrency env files K order")
    case (Inl e')
    then show ?thesis by simp
  next
    case (Inr slots)
    from run_returns(2)[OF Inr that i(1)] i(2) show ?thesis by simp
  qed
  from rej[OF k] obtain e' where e': "runTestsWithConcurrency env files concurrency order = Inl e'"
    by blast
  from run_rejects[OF e'] obtain j where "j < length files" "settle env (invoke env (files ! j)) = Inl e'"
    by blast
  with e' show "\<exists>f \<in> set files. \<exists>e. settle env (invoke env f) = Inl e \<and>
         runTestsWithConcurrency env files concurrency order = Inl e"
    using nth_mem by blast
  from rej[of CONCURRENCY] show "final_report_parallel env (Inr files) order = None"
    by (auto simp: final_report_parallel_def CONCURRENCY_def)
  from rej[of CONCURRENCY] show "main_parallel env (Inr files) order = 1"
    by (auto simp: main_parallel_def CONCURRENCY_def)
  have "\<exists>e st. seq_loop env files 0 seq_init = Inl (e, st)"
  proof (cases "seq_loop env files 0 seq_init")
    case (Inl a)
    then show ?thesis by (cases a) simp
  next
    case (Inr st)
    from seq_all_resolved[OF Inr _ i(1)] i(2) show ?thesis by simp
  qed
  then obtain e2 st2 where s: "seq_loop env files 0 seq_init = Inl (e2, st2)" by blast
  from seq_loop_throws_inv[OF s seq_inv_init]
  show "\<exists>e st k. seq_loop env files 0 seq_init = Inl (e, st) \<and> k < length files \<and>
         settle env (invoke env (files ! k)) = Inl e \<and>
         length (seq_results st) = k \<and>
         (\<forall>j < k. settle env (invoke env (files ! j)) = Inr (seq_results st ! j)) \<and>
         map fst (reports (seq_events st)) = [0..<k]"
    using s by blast
  from s show "final_report_sequential env (Inr files) = None"
    by (simp add: final_report_sequential_def)
  from s show "main_sequential env (Inr files) = 1"
    by (simp add: main_sequential_def)
qed

theorem rejection_propagates_witness:
  "runTestsWithConcurrency rejecting_env [''a.ts'', ''b.ts''] 1 [] = Inl (Thrown ''spawn EAGAIN'') \<and>
   results (run_parallel rejecting_env [''a.ts'', ''b.ts''] 1 []) ! 0 = None \<and>
   final_report_parallel rejecting_env (Inr [''a.ts'', ''b.ts'']) [] = None \<and>
   final_report_sequential rejecting_env (Inr [''a.ts'', ''b.ts'']) = None \<and>
   main_parallel rejecting_env (Inr [''a.ts'', ''b.ts'']) [] = 1 \<and>
   main_sequential rejecting_env (Inr [''a.ts'', ''b.ts'']) = 1 \<and>
   (\<exists>slots. runTestsWithConcurrency demo_env [''a.ts'', ''b.ts'', ''c.ts''] 2 [4, 4, 0] = Inr slots \<and>
      slots ! 0 = Some \<lparr>success = True, duration = 100, error = None\<rparr> \<and>
      slots ! 1 = Some \<lparr>success = False, duration = 50, error = Some ''boom''\<rparr> \<and>
      slots ! 2 = Some \<lparr>success = True, duration = 10, error = None\<rparr>)"
proof -
  have k: "(1::int) \<le> 1" "(1::int) \<le> 2" by simp_all
  note t = rejection_propagates[OF k(1), of rejecting_env "[''a.ts'', ''b.ts'']" "[]"]
  have a: "settle rejecting_env (invoke rejecting_env ''a.ts'') = Inl (Thrown ''spawn EAGAIN'')"
    and b: "settle rejecting_env (invoke rejecting_env ''b.ts'') = Inr \<lparr>success = True, duration = 7, error = None\<rparr>"
    by (simp_all add: rejecting_env_def invoke_def)
  have ex: "\<exists>f \<in> set [''a.ts'', ''b.ts'']. \<exists>e. settle rejecting_env (invoke rejecting_env f) = Inl e"
    using a by simp
  note t4 = t[THEN conjunct2, THEN conjunct2, THEN conjunct2, THEN mp, OF ex]
  note c2 = t4[THEN conjunct2]
  note c3 = c2[THEN conjunct2]
  note c5 = c3[THEN conjunct2, THEN conjunct2]
  note m = c3[THEN conjunct1] c5[THEN conjunct2] c2[THEN conjunct1] c5[THEN conjunct1]
  from t4[THEN conjunct1]
  have "(\<exists>f \<in> set [''a.ts'', ''b.ts'']. \<exists>e. settle rejecting_env (invoke rejecting_env f) = Inl e \<and>
         runTestsWithConcurrency rejecting_env [''a.ts'', ''b.ts''] 1 [] = Inl e)" .
  then have 1: "runTestsWithConcurrency rejecting_env [''a.ts'', ''b.ts''] 1 [] = Inl (Thrown ''spawn EAGAIN'')"
    using a b by auto
  have "reachable rejecting_env [''a.ts'', ''b.ts''] 1 (run_parallel rejecting_env [''a.ts'', ''b.ts''] 1 [])"
    by (rule reachable_run_parallel)
  moreover have "(0::nat) < length [''a.ts'', ''b.ts'']"
    "settle rejecting_env (invoke rejecting_env ([''a.ts'', ''b.ts''] ! 0)) = Inl (Thrown ''spawn EAGAIN'')"
    using a by simp_all
  ultimately have 2: "results (run_parallel rejecting_env [''a.ts'', ''b.ts''] 1 []) ! 0 = None"
    using t[THEN conjunct2, THEN conjunct2, THEN conjunct1, rule_format,
        of "run_parallel rejecting_env [''a.ts'', ''b.ts''] 1 []" 0 "Thrown ''spawn EAGAIN''"]
    by simp
  have d: "settle demo_env (invoke demo_env ''a.ts'') = Inr \<lparr>success = True, duration = 100, error = None\<rparr>"
    "settle demo_env (invoke demo_env ''b.ts'') = Inr \<lparr>success = False, duration = 50, error = Some ''boom''\<rparr>"
    "settle demo_env (invoke demo_env ''c.ts'') = Inr \<lparr>success = True, duration = 10, error = None\<rparr>"
    by (simp_all add: demo_env_def demo_result_def invoke_def)
  then have ok2: "\<forall>f \<in> set [''a.ts'', ''b.ts'', ''c.ts'']. \<exists>r. settle demo_env (invoke demo_env f) = Inr r"
    by simp
  from rejection_propagates[OF k(2), of demo_env "[''a.ts'', ''b.ts'', ''c.ts'']" "[4, 4, 0]",
      THEN conjunct2, THEN conjunct1, THEN mp, OF ok2]
  obtain slots where s: "runTestsWithConcurrency demo_env [''a.ts'', ''b.ts'', ''c.ts''] 2 [4, 4, 0] = Inr slots"
    "\<forall>i < length [''a.ts'', ''b.ts'', ''c.ts''].
       \<exists>r. settle demo_env (invoke demo_env ([''a.ts'', ''b.ts'', ''c.ts''] ! i)) = Inr r \<and> slots ! i = Some r"
    by blast
  from s(2)[rule_format, of 0] s(2)[rule_format, of 1] s(2)[rule_format, of 2] d
  have "slots ! 0 = Some \<lparr>success = True, duration = 100, error = None\<rparr> \<and>
      slots ! 1 = Some \<lparr>success = False, duration = 50, error = Some ''boom''\<rparr> \<and>
      slots ! 2 = Some \<lparr>success = True, duration = 10, error = None\<rparr>" by simp
  with s(1) 1 2 m show ?thesis by blast
qed

subsection \<open>Timeout of an example\<close>

text \<open>
  Claim C6 (on the runner as the specification describes it). When the child
  exceeds the bound, it is killed, the result has \<open>success = False\<close>, an error
  message that contains \<open>timeout\<close>, and the bound as duration. On every path there
  is one spawn, and the last process event is the exit or the kill of the child.
\<close>

theorem timeout_reclaims_child:
  "(exceeds bound behaviour \<longrightarrow>
      success (fst (runExample_process bound behaviour)) = False \<and>
      (\<exists>m. error (fst (runExample_process bound behaviour)) = Some m \<and> sublist ''timeout'' m) \<and>
      duration (fst (runExample_process bound behaviour)) = bound \<and>
      snd (runExample_process bound behaviour) = [ClientSpawned, ClientKilled]) \<and>
   count_list (snd (runExample_process bound behaviour)) ClientSpawned = 1 \<and>
   (last (snd (runExample_process bound behaviour)) = ClientExited \<or>
    last (snd (runExample_process bound behaviour)) = ClientKilled)"
proof -
  have 1: "exceeds bound behaviour \<longrightarrow>
      success (fst (runExample_process bound behaviour)) = False \<and>
      (\<exists>m. error (fst (runExample_process bound behaviour)) = Some m \<and> sublist ''timeout'' m) \<and>
      duration (fst (runExample_process bound behaviour)) = bound \<and>
      snd (runExample_process bound behaviour) = [ClientSpawned, ClientKilled]"
    by (cases behaviour) (simp_all add: runExample_process_def timed_out_def timeout_message_def)
  from client_events[of bound behaviour]
  have 2: "count_list (snd (runExample_process bound behaviour)) ClientSpawned = 1 \<and>
   (last (snd (runExample_process bound behaviour)) = ClientExited \<or>
    last (snd (runExample_process bound behaviour)) = ClientKilled)"
    by auto
  from 1 2 show ?thesis by blast
qed

theorem timeout_reclaims_child_witness:
  "runExample_process 30000 Hangs =
     (\<lparr>success = False, duration = 30000, error = Some ''timeout''\<rparr>, [ClientSpawned, ClientKilled]) \<and>
   duration (fst (runExample_process 30000 (Exits 45000 0 False ''done''))) = 30000 \<and>
   success (fst (runExample_process 30000 (Exits 45000 0 False ''done''))) = False \<and>
   snd (runExample_process 30000 (Exits 45000 0 False ''done'')) = [ClientSpawned, ClientKilled]"
  using timeout_reclaims_child[of 30000 "Exits 45000 0 False ''done''"]
    timeout_reclaims_child[of 30000 Hangs]
  by (simp add: runExample_process_def timed_out_def timeout_message_def)

subsection \<open>Teardown of the companion server\<close>

text \<open>
  Claim C5 (on the runner as the specification describes it). Whatever the server
  and the client do, the server is terminated exactly once and this is the last
  process event before the result is returned. When the server exits or errors
  before it is ready, the result is a failure whose message contains
  \<open>server failed to start\<close>, and the client is never spawned.
\<close>

theorem server_torn_down:
  "count_list (snd (runServerExample_lifecycle bound srv behaviour)) ServerKilled = 1 \<and>
   last (snd (runServerExample_lifecycle bound srv behaviour)) = ServerKilled \<and>
   (srv \<noteq> BecomesReady \<longrightarrow>
      success (fst (runServerExample_lifecycle bound srv behaviour)) = False \<and>
      (\<exists>m. error (fst (runServerExample_lifecycle bound srv behaviour)) = Some m \<and>
           sublist ''server failed to start'' m) \<and>
      ClientSpawned \<notin> set (snd (runServerExample_lifecycle bound srv behaviour)))"
proof (cases srv)
  case BecomesReady
  from client_events[of bound behaviour] show ?thesis
    by (auto simp: BecomesReady runServerExample_lifecycle_def split: prod.splits)
next
  case (ExitsEarly t status)
  then show ?thesis by (simp add: runServerExample_lifecycle_def startup_message_def)
next
  case (ErrorsEarly t message)
  then show ?thesis by (simp add: runServerExample_lifecycle_def startup_message_def)
qed

theorem server_torn_down_witness:
  "runServerExample_lifecycle 30000 (ExitsEarly 12 1) (Exits 100 0 False ''ok'') =
     (\<lparr>success = False, duration = 12, error = Some ''server failed to start''\<rparr>,
      [ServerSpawned, ServerKilled]) \<and>
   count_list (snd (runServerExample_lifecycle 30000 (ExitsEarly 12 1) (Exits 100 0 False ''ok''))) ServerKilled = 1 \<and>
   snd (runServerExample_lifecycle 30000 BecomesReady Hangs) =
     [ServerSpawned, ClientSpawned, ClientKilled, ServerKilled] \<and>
   count_list (snd (runServerExample_lifecycle 30000 BecomesReady Hangs)) ServerKilled = 1"
  using server_torn_down[of 30000 "ExitsEarly 12 1" "Exits 100 0 False ''ok''"]
    server_torn_down[of 30000 BecomesReady Hangs]
  by (simp add: runServerExample_lifecycle_def runExample_process_def startup_message_def timed_out_def)


end
